theory Spec2Isabelle
  imports Main
begin

section \<open>The DMA buffer pool and device shim of \<open>sos/src/network.c\<close>\<close>

text \<open>
  The development embeds the buffer subsystem of \<open>network.c\<close>: the block that starts at
  \<open>#include "ringbuffer.h"\<close>, which the file keeps under \<open>#if 0\<close> for the
  interrupt-driven mode. It holds the \<open>buffers\<close> structure, \<open>alloc_dma_buf\<close>,
  \<open>free_dma_buf\<close>, \<open>init_buffers\<close>, \<open>pico_allocate_rx_buf\<close>, \<open>pico_rx_complete\<close>,
  \<open>pico_tx_complete\<close>, \<open>pico_eth_send\<close> and \<open>pico_eth_poll\<close>. The two polled functions
  at the head of the file follow in a section of their own.

  Conventions:
  \<^item> a \<open>long\<close> or \<open>int\<close> value is an \<open>int\<close>; the one narrowing conversion of the code
    (\<open>long\<close> to \<open>int\<close> in \<open>alloc_dma_buf\<close>) and the two places where \<open>int\<close> arithmetic
    could overflow are written out;
  \<^item> a failed \<open>assert\<close>, a fatal log (\<open>ZF_LOGF_IF\<close>) and an access outside an array end
    the run: the function returns \<open>Inl\<close> of an \<open>abort\<close>;
  \<^item> calls to collaborators (logging, cache maintenance, \<open>memcpy\<close>, the stack's receive
    entry point) are recorded, in order, in the field \<open>trace\<close>; a log entry keeps the format
    string of the call, without a trailing newline.
\<close>

subsection \<open>Constants\<close>

text \<open>
  \<open>N_DMA_BUFS\<close>, \<open>N_RX_BUFS\<close>, \<open>N_TX_BUFS\<close> and \<open>BUF_SIZE\<close> are preprocessor constants.
  The functions below take them from a record, so that a property proved for every
  configuration holds for the values of the source (\<open>sos_config\<close>) and for the small
  pools of the scenarios.
\<close>

record config =
  N_DMA_BUFS :: nat
  N_RX_BUFS :: nat
  N_TX_BUFS :: nat
  BUF_SIZE :: nat

definition sos_config :: config where
  "sos_config = \<lparr>N_DMA_BUFS = 512, N_RX_BUFS = 256, N_TX_BUFS = 128, BUF_SIZE = 2048\<rparr>"

definition INT_MAX :: int where
  "INT_MAX = 2147483647"

definition INT_MIN :: int where
  "INT_MIN = - 2147483648"

definition int_of_long :: "int \<Rightarrow> int" where
  \<comment> \<open>the conversion of a \<open>long\<close> to a 32-bit \<open>int\<close>: the low 32 bits, read as signed\<close>
  "int_of_long x = signed_take_bit 31 x"

subsection \<open>Data\<close>

record dma_addr_t =
  vaddr :: nat
  paddr :: nat

record rx_t =
  buf_no :: int
  length_rx :: int

datatype abort =
    Assert_failed
  | Fatal
  | Out_of_bounds int
  | Signed_overflow
  | Negative_size int

datatype event =
    ZF_LOGE string
  | ZF_LOGW string
  | memcpy nat int
  | sos_dma_cache_clean nat int
  | sos_dma_cache_invalidate nat int
  | sos_dma_cache_clean_invalidate nat nat
  | pico_stack_recv nat int

subsection \<open>The ring buffer\<close>

text \<open>
  Modelled from the spec: the macros of \<open>ringbuffer.h\<close> (\<open>ringBuffer_typedef\<close>,
  \<open>bufferInit\<close>, \<open>isBufferEmpty\<close>, \<open>isBufferFull\<close>, \<open>bufferWrite\<close>, \<open>bufferRead\<close>) are not
  part of the sources. The spec describes both rings as bounded FIFOs: the free list
  with "capacity == pool capacity", the completion queue with its own capacity, where
  "enqueue on a full queue is rejected" and "dequeue on empty queue yields nothing".
\<close>

record 'a ringBuffer =
  capacity :: nat
  elems :: "'a list"

definition bufferInit :: "nat \<Rightarrow> 'a ringBuffer" where
  "bufferInit S = \<lparr>capacity = S, elems = []\<rparr>"

definition isBufferEmpty :: "'a ringBuffer \<Rightarrow> bool" where
  "isBufferEmpty b = (elems b = [])"

definition isBufferFull :: "'a ringBuffer \<Rightarrow> bool" where
  "isBufferFull b = (capacity b \<le> length (elems b))"

definition bufferWrite :: "'a ringBuffer \<Rightarrow> 'a \<Rightarrow> 'a ringBuffer" where
  "bufferWrite b x = (if isBufferFull b then b else b\<lparr>elems := elems b @ [x]\<rparr>)"

definition bufferRead :: "'a ringBuffer \<Rightarrow> ('a \<times> 'a ringBuffer) option" where
  "bufferRead b = (case elems b of [] \<Rightarrow> None | x # xs \<Rightarrow> Some (x, b\<lparr>elems := xs\<rparr>))"

subsection \<open>The state\<close>

text \<open>
  The first four fields are the members of the structure \<open>buffers\<close>. The field \<open>owned\<close>
  is a ghost: the code keeps no record of the buffers that are outside the free pool, so
  the model lists the handles that \<open>alloc_dma_buf\<close> has returned and \<open>free_dma_buf\<close> has
  not yet taken back. No function of the code reads it. The field \<open>trace\<close> lists the
  calls made to collaborators.
\<close>

record buffers =
  dma_bufs :: "dma_addr_t list"
  free_pool :: "int ringBuffer"
  rx_queue :: "rx_t ringBuffer"
  n_tx_bufs :: int
  owned :: "int list"
  trace :: "event list"

definition emit :: "buffers \<Rightarrow> event list \<Rightarrow> buffers" where
  "emit s es = s\<lparr>trace := trace s @ es\<rparr>"

definition array_read :: "'a list \<Rightarrow> int \<Rightarrow> abort + 'a" where
  \<comment> \<open>\<open>a[i]\<close>: outside the array the access is an \<open>Out_of_bounds\<close> abort\<close>
  "array_read a i = (if 0 \<le> i \<and> i < int (length a) then Inr (a ! nat i) else Inl (Out_of_bounds i))"

subsection \<open>\<open>alloc_dma_buf\<close> and \<open>free_dma_buf\<close>\<close>

text \<open>
  \<open>alloc_dma_buf\<close> reads the head of the free pool into an \<open>int\<close> and returns it as a
  \<open>long\<close>; it returns \<open>-1\<close> when the pool is empty. The read follows the test for an empty
  pool, so its \<open>None\<close> branch is never taken. \<open>free_dma_buf\<close> makes its two assertions and
  appends the handle.
\<close>

definition alloc_dma_buf :: "buffers \<Rightarrow> buffers \<times> int" where
  "alloc_dma_buf s =
     (let pool = free_pool s in
      if isBufferEmpty pool then (emit s [ZF_LOGE ''Out of preallocated eth buffers.''], - 1)
      else (case bufferRead pool of
              None \<Rightarrow> (s, - 1)
            | Some (x, pool') \<Rightarrow>
                (let allocated_buf_no = int_of_long x
                 in (s\<lparr>free_pool := pool', owned := owned s @ [allocated_buf_no]\<rparr>,
                     allocated_buf_no))))"

definition free_dma_buf :: "config \<Rightarrow> buffers \<Rightarrow> int \<Rightarrow> abort + buffers" where
  "free_dma_buf c s b =
     (if \<not> b < int (N_DMA_BUFS c) then Inl Assert_failed
      else (let pool = free_pool s in
            if isBufferFull pool then Inl Assert_failed
            else Inr (s\<lparr>free_pool := bufferWrite pool b, owned := remove1 b (owned s)\<rparr>)))"

subsection \<open>\<open>init_buffers\<close>\<close>

text \<open>
  What \<open>init_buffers\<close> gets from the platform: whether the two \<open>calloc\<close> calls of
  \<open>bufferInit\<close> succeed, the result of the \<open>i\<close>-th \<open>sos_dma_malloc\<close>, and whether the
  \<open>i\<close>-th \<open>sos_dma_cache_clean_invalidate\<close> reports \<open>seL4_NoError\<close>.
\<close>

record platform =
  free_pool_calloc_ok :: bool
  rx_queue_calloc_ok :: bool
  sos_dma_malloc :: "nat \<Rightarrow> dma_addr_t"
  clean_invalidate_ok :: "nat \<Rightarrow> bool"

function init_loop :: "config \<Rightarrow> platform \<Rightarrow> nat \<Rightarrow> buffers \<Rightarrow> abort + buffers" where
  "init_loop c p i s =
     (if i < N_DMA_BUFS c then
        (let d = sos_dma_malloc p i in
         if vaddr d = 0 then Inl Fatal
         else if \<not> clean_invalidate_ok p i then Inl Fatal
         else init_loop c p (i + 1)
                (s\<lparr>dma_bufs := (dma_bufs s)[i := d],
                   free_pool := bufferWrite (free_pool s) (int i),
                   trace := trace s @ [sos_dma_cache_clean_invalidate (vaddr d) (BUF_SIZE c)]\<rparr>))
      else Inr s)"
  by pat_completeness auto
termination
  by (relation "measure (\<lambda>(c, p, i, s). N_DMA_BUFS c - i)") auto

definition init_buffers :: "config \<Rightarrow> platform \<Rightarrow> abort + buffers" where
  "init_buffers c p =
     (if \<not> free_pool_calloc_ok p then Inl Fatal
      else if \<not> rx_queue_calloc_ok p then Inl Fatal
      else init_loop c p 0
             \<lparr>dma_bufs = replicate (N_DMA_BUFS c) \<lparr>vaddr = 0, paddr = 0\<rparr>,
              free_pool = bufferInit (N_DMA_BUFS c),
              rx_queue = bufferInit (N_RX_BUFS c),
              n_tx_bufs = 0,
              owned = [],
              trace = []\<rparr>)"

subsection \<open>The receive path: \<open>pico_allocate_rx_buf\<close> and \<open>pico_rx_complete\<close>\<close>

text \<open>
  \<open>pico_allocate_rx_buf\<close> returns the physical address (0 on failure) and, when it
  stores one, the cookie.
\<close>

definition pico_allocate_rx_buf :: "config \<Rightarrow> buffers \<Rightarrow> nat \<Rightarrow> abort + (buffers \<times> nat \<times> int option)" where
  "pico_allocate_rx_buf c s buf_size =
     (if BUF_SIZE c < buf_size then
        Inr (emit s [ZF_LOGE ''Requested buf size %zu too large, max %zu''], 0, None)
      else (case alloc_dma_buf s of (s1, b) \<Rightarrow>
              if b = - 1 then Inr (s1, 0, None)
              else (case array_read (dma_bufs s1) b of
                      Inl e \<Rightarrow> Inl e
                    | Inr d \<Rightarrow>
                        Inr (emit s1 [sos_dma_cache_invalidate (vaddr d) (int (BUF_SIZE c))],
                             paddr d, Some b))))"

text \<open>
  The loop of the split-frame branch. Its counter is an \<open>unsigned int\<close>; every iteration
  that goes on has added an entry to the free pool, and the assertion of \<open>free_dma_buf\<close>
  stops the loop when the pool is full, so the counter is a \<open>nat\<close>.
\<close>

function rx_free_loop :: "config \<Rightarrow> buffers \<Rightarrow> nat \<Rightarrow> nat \<Rightarrow> int list \<Rightarrow> abort + buffers" where
  "rx_free_loop c s i num_bufs cookies =
     (if i < num_bufs then
        (case array_read cookies (int i) of
           Inl e \<Rightarrow> Inl e
         | Inr ck \<Rightarrow>
             (case free_dma_buf c s ck of
                Inl e \<Rightarrow> Inl e
              | Inr s' \<Rightarrow> rx_free_loop c s' (i + 1) num_bufs cookies))
      else Inr s)"
  by pat_completeness auto
termination
  by (relation "measure (\<lambda>(c, s, i, num_bufs, cookies). num_bufs - i)") auto

definition pico_rx_complete :: "config \<Rightarrow> buffers \<Rightarrow> nat \<Rightarrow> int list \<Rightarrow> int list \<Rightarrow> abort + buffers" where
  "pico_rx_complete c s num_bufs cookies lens =
     (if 1 < num_bufs then
        rx_free_loop c (emit s [ZF_LOGW ''Frame splitting not handled'']) 0 num_bufs cookies
      else (let q = rx_queue s in
            if isBufferFull q then Inl Assert_failed
            else (case array_read cookies 0 of
                    Inl e \<Rightarrow> Inl e
                  | Inr ck \<Rightarrow>
                      (case array_read lens 0 of
                         Inl e \<Rightarrow> Inl e
                       | Inr ln \<Rightarrow>
                           Inr (s\<lparr>rx_queue := bufferWrite q \<lparr>buf_no = ck, length_rx = ln\<rparr>\<rparr>)))))"

subsection \<open>The transmit path: \<open>pico_tx_complete\<close> and \<open>pico_eth_send\<close>\<close>

definition pico_tx_complete :: "config \<Rightarrow> buffers \<Rightarrow> int \<Rightarrow> abort + buffers" where
  "pico_tx_complete c s cookie =
     (case free_dma_buf c s cookie of
        Inl e \<Rightarrow> Inl e
      | Inr s1 \<Rightarrow>
          if n_tx_bufs s1 = INT_MIN then Inl Signed_overflow
          else Inr (s1\<lparr>n_tx_bufs := n_tx_bufs s1 - 1\<rparr>))"

text \<open>
  \<open>pico_eth_send\<close> returns the number of bytes it reports as sent. A negative \<open>len\<close>
  would reach \<open>memcpy\<close> as a huge \<open>size_t\<close>: the model aborts there.
\<close>

definition pico_eth_send :: "config \<Rightarrow> buffers \<Rightarrow> int \<Rightarrow> abort + (buffers \<times> int)" where
  "pico_eth_send c s len =
     (if int (BUF_SIZE c) < len then
        Inr (emit s [ZF_LOGE ''Buffer size %d too big, max %d''], 0)
      else if n_tx_bufs s = int (N_TX_BUFS c) then Inr (s, 0)
      else (case alloc_dma_buf s of (s1, b) \<Rightarrow>
              if n_tx_bufs s1 = INT_MAX then Inl Signed_overflow
              else (let s2 = s1\<lparr>n_tx_bufs := n_tx_bufs s1 + 1\<rparr> in
                    case array_read (dma_bufs s2) b of
                      Inl e \<Rightarrow> Inl e
                    | Inr buf \<Rightarrow>
                        if len < 0 then Inl (Negative_size len)
                        else Inr (emit s2 [memcpy (vaddr buf) len,
                                           sos_dma_cache_clean (vaddr buf) len], len))))"

subsection \<open>\<open>pico_eth_poll\<close>\<close>

function pico_eth_poll :: "config \<Rightarrow> buffers \<Rightarrow> int \<Rightarrow> abort + (buffers \<times> int)" where
  "pico_eth_poll c s loop_score =
     (if 0 < loop_score then
        (let q = rx_queue s in
         if isBufferEmpty q then Inr (s, loop_score)
         else (case bufferRead q of
                 None \<Rightarrow> Inr (s, loop_score)
               | Some (rx, q') \<Rightarrow>
                   (case array_read (dma_bufs s) (buf_no rx) of
                      Inl e \<Rightarrow> Inl e
                    | Inr d \<Rightarrow>
                        (case free_dma_buf c
                                (emit (s\<lparr>rx_queue := q'\<rparr>)
                                   [sos_dma_cache_invalidate (vaddr d) (length_rx rx),
                                    pico_stack_recv (vaddr d) (length_rx rx)])
                                (buf_no rx) of
                           Inl e \<Rightarrow> Inl e
                         | Inr s' \<Rightarrow> pico_eth_poll c s' (loop_score - 1)))))
      else Inr (s, loop_score))"
  by pat_completeness auto
termination
  by (relation "measure (\<lambda>(c, s, loop_score). nat loop_score)") auto

section \<open>The polled device functions\<close>

text \<open>
  The functions \<open>pico_eth_send\<close> and \<open>pico_eth_poll\<close> at the head of \<open>network.c\<close> drive the
  ethernet driver directly, without the buffer pool; they carry the suffix \<open>_polled\<close>
  here. The driver (\<open>ethif_send\<close>, \<open>ethif_recv\<close>) is not part of the sources: a send is
  given whether \<open>ethif_send\<close> reports \<open>ETHIF_NOERROR\<close>, and a poll is given the answers
  of the successive calls of \<open>ethif_recv\<close>, each one whether it reports \<open>ETHIF_ERROR\<close>
  and the length it stores.
\<close>

definition pico_eth_send_polled :: "bool \<Rightarrow> int \<Rightarrow> int" where
  "pico_eth_send_polled ethif_send_noerror len = (if \<not> ethif_send_noerror then 0 else len)"

function pico_eth_poll_polled :: "(nat \<Rightarrow> bool \<times> int) \<Rightarrow> nat \<Rightarrow> int \<Rightarrow> int" where
  "pico_eth_poll_polled ethif_recv k loop_score =
     (if 0 < loop_score then
        (case ethif_recv k of (is_error, len) \<Rightarrow>
           if is_error \<or> len = 0 then loop_score
           else pico_eth_poll_polled ethif_recv (k + 1) (loop_score - 1))
      else loop_score)"
  by pat_completeness auto
termination
  by (relation "measure (\<lambda>(ethif_recv, k, loop_score). nat loop_score)") auto

text \<open>
  The number of frames that the calls of \<open>ethif_recv\<close> from the \<open>k\<close>-th on deliver in a
  row, up to a bound.
\<close>

fun frames_received :: "(nat \<Rightarrow> bool \<times> int) \<Rightarrow> nat \<Rightarrow> nat \<Rightarrow> nat" where
  "frames_received ethif_recv k 0 = 0"
| "frames_received ethif_recv k (Suc n) =
     (if fst (ethif_recv k) \<or> snd (ethif_recv k) = 0 then 0
      else Suc (frames_received ethif_recv (Suc k) n))"

section \<open>Runs of the subsystem\<close>

text \<open>
  The callers of the subsystem (the stack for \<open>pico_eth_send\<close> and \<open>pico_eth_poll\<close>, the
  driver for the three \<open>pico_\<close> callbacks) are an environment that calls the entry
  points in any order. An action is one call with its arguments; \<open>step\<close> makes the call
  and keeps the new state, \<open>run\<close> makes a list of calls and stops at the first abort.
\<close>

datatype action =
    Alloc_dma_buf
  | Free_dma_buf int
  | Allocate_rx_buf nat
  | Rx_complete nat "int list" "int list"
  | Tx_complete int
  | Eth_send int
  | Eth_poll int

fun step :: "config \<Rightarrow> buffers \<Rightarrow> action \<Rightarrow> abort + buffers" where
  "step c s Alloc_dma_buf = Inr (fst (alloc_dma_buf s))"
| "step c s (Free_dma_buf b) = free_dma_buf c s b"
| "step c s (Allocate_rx_buf buf_size) =
     (case pico_allocate_rx_buf c s buf_size of Inl e \<Rightarrow> Inl e | Inr (s', r) \<Rightarrow> Inr s')"
| "step c s (Rx_complete num_bufs cookies lens) = pico_rx_complete c s num_bufs cookies lens"
| "step c s (Tx_complete cookie) = pico_tx_complete c s cookie"
| "step c s (Eth_send len) =
     (case pico_eth_send c s len of Inl e \<Rightarrow> Inl e | Inr (s', r) \<Rightarrow> Inr s')"
| "step c s (Eth_poll loop_score) =
     (case pico_eth_poll c s loop_score of Inl e \<Rightarrow> Inl e | Inr (s', r) \<Rightarrow> Inr s')"

fun run :: "config \<Rightarrow> buffers \<Rightarrow> action list \<Rightarrow> abort + buffers" where
  "run c s [] = Inr s"
| "run c s (a # as) = (case step c s a of Inl e \<Rightarrow> Inl e | Inr s' \<Rightarrow> run c s' as)"

text \<open>
  The handles of the buffers waiting in the completion queue, and the handles that an
  action of the environment hands back: to \<open>free_dma_buf\<close> (a release, a transmit
  completion, the buffers of a split frame) or to the completion queue (a frame in one
  buffer).
\<close>

definition queued :: "buffers \<Rightarrow> int list" where
  "queued s = map buf_no (elems (rx_queue s))"

fun handed_back :: "action \<Rightarrow> int list" where
  "handed_back (Free_dma_buf b) = [b]"
| "handed_back (Tx_complete cookie) = [cookie]"
| "handed_back (Rx_complete num_bufs cookies lens) =
     (if 1 < num_bufs then take num_bufs cookies else take 1 cookies)"
| "handed_back a = []"

text \<open>
  A caller respects ownership when every handle it hands back is one that is outside the
  pool, is not already waiting in the completion queue, and is handed back once.
\<close>

definition respects_ownership :: "buffers \<Rightarrow> action \<Rightarrow> bool" where
  "respects_ownership s a =
     (distinct (handed_back a) \<and>
      (\<forall>b \<in> set (handed_back a). b \<in> set (owned s) \<and> b \<notin> set (queued s)))"

fun disciplined :: "config \<Rightarrow> buffers \<Rightarrow> action list \<Rightarrow> bool" where
  "disciplined c s [] = True"
| "disciplined c s (a # as) =
     (respects_ownership s a \<and>
      (case step c s a of Inl e \<Rightarrow> True | Inr s' \<Rightarrow> disciplined c s' as))"

definition pool_inv :: "config \<Rightarrow> buffers \<Rightarrow> bool" where
  "pool_inv c s =
     (capacity (free_pool s) = N_DMA_BUFS c \<and>
      distinct (elems (free_pool s) @ owned s) \<and>
      set (elems (free_pool s) @ owned s) = {0..<int (N_DMA_BUFS c)} \<and>
      distinct (queued s) \<and>
      set (queued s) \<subseteq> set (owned s))"

text \<open>Counting accepted sends (each one calls \<open>memcpy\<close> once) and transmit completions.\<close>

fun is_memcpy :: "event \<Rightarrow> bool" where
  "is_memcpy (memcpy a n) = True"
| "is_memcpy e = False"

fun is_stack_recv :: "event \<Rightarrow> bool" where
  "is_stack_recv (pico_stack_recv a n) = True"
| "is_stack_recv e = False"

fun is_tx_complete :: "action \<Rightarrow> bool" where
  "is_tx_complete (Tx_complete cookie) = True"
| "is_tx_complete a = False"

section \<open>Concrete configurations\<close>

text \<open>
  A platform on which every allocation succeeds, and two small configurations: a pool
  of four buffers with at most two transmissions in flight, and a pool of eight buffers
  with a completion queue of six.
\<close>

definition board :: platform where
  "board = \<lparr>free_pool_calloc_ok = True, rx_queue_calloc_ok = True,
            sos_dma_malloc = (\<lambda>i. \<lparr>vaddr = 2048 * (i + 1), paddr = 2048 * (i + 1) + 1048576\<rparr>),
            clean_invalidate_ok = (\<lambda>i. True)\<rparr>"

definition pool4_config :: config where
  "pool4_config = \<lparr>N_DMA_BUFS = 4, N_RX_BUFS = 2, N_TX_BUFS = 2, BUF_SIZE = 2048\<rparr>"

definition pool8_config :: config where
  "pool8_config = \<lparr>N_DMA_BUFS = 8, N_RX_BUFS = 6, N_TX_BUFS = 2, BUF_SIZE = 2048\<rparr>"

definition pool4_init :: buffers where
  "pool4_init =
     \<lparr>dma_bufs = [\<lparr>vaddr = 2048, paddr = 1050624\<rparr>, \<lparr>vaddr = 4096, paddr = 1052672\<rparr>,
                  \<lparr>vaddr = 6144, paddr = 1054720\<rparr>, \<lparr>vaddr = 8192, paddr = 1056768\<rparr>],
      free_pool = \<lparr>capacity = 4, elems = [0, 1, 2, 3]\<rparr>,
      rx_queue = \<lparr>capacity = 2, elems = []\<rparr>,
      n_tx_bufs = 0,
      owned = [],
      trace = [sos_dma_cache_clean_invalidate 2048 2048, sos_dma_cache_clean_invalidate 4096 2048,
               sos_dma_cache_clean_invalidate 6144 2048, sos_dma_cache_clean_invalidate 8192 2048]\<rparr>"

section \<open>Auxiliary definitions\<close>

text \<open>
  The state that \<open>init_buffers\<close> builds on a platform where every allocation succeeds,
  and the state of its loop before iteration \<open>i\<close>.
\<close>

definition init_state :: "config \<Rightarrow> platform \<Rightarrow> buffers" where
  "init_state c p =
     \<lparr>dma_bufs = map (sos_dma_malloc p) [0..<N_DMA_BUFS c],
      free_pool = \<lparr>capacity = N_DMA_BUFS c, elems = map int [0..<N_DMA_BUFS c]\<rparr>,
      rx_queue = \<lparr>capacity = N_RX_BUFS c, elems = []\<rparr>,
      n_tx_bufs = 0,
      owned = [],
      trace = map (\<lambda>i. sos_dma_cache_clean_invalidate (vaddr (sos_dma_malloc p i)) (BUF_SIZE c))
                [0..<N_DMA_BUFS c]\<rparr>"

definition platform_ok :: "config \<Rightarrow> platform \<Rightarrow> bool" where
  "platform_ok c p =
     (free_pool_calloc_ok p \<and> rx_queue_calloc_ok p \<and>
      (\<forall>i < N_DMA_BUFS c. vaddr (sos_dma_malloc p i) \<noteq> 0 \<and> clean_invalidate_ok p i))"

definition init_partial :: "config \<Rightarrow> platform \<Rightarrow> nat \<Rightarrow> buffers" where
  "init_partial c p i =
     \<lparr>dma_bufs = map (sos_dma_malloc p) [0..<i] @ replicate (N_DMA_BUFS c - i) \<lparr>vaddr = 0, paddr = 0\<rparr>,
      free_pool = \<lparr>capacity = N_DMA_BUFS c, elems = map int [0..<i]\<rparr>,
      rx_queue = \<lparr>capacity = N_RX_BUFS c, elems = []\<rparr>,
      n_tx_bufs = 0,
      owned = [],
      trace = map (\<lambda>i. sos_dma_cache_clean_invalidate (vaddr (sos_dma_malloc p i)) (BUF_SIZE c))
                [0..<i]\<rparr>"

text \<open>A number of \<open>alloc_dma_buf\<close> calls in a row, with the handles they return.\<close>

fun alloc_many :: "buffers \<Rightarrow> nat \<Rightarrow> buffers \<times> int list" where
  "alloc_many s 0 = (s, [])"
| "alloc_many s (Suc n) =
     (case alloc_dma_buf s of (s1, b) \<Rightarrow>
        (case alloc_many s1 n of (s2, bs) \<Rightarrow> (s2, b # bs)))"

text \<open>
  The pool of the source after the driver has taken every buffer for reception
  (512 calls of \<open>pico_allocate_rx_buf\<close>).
\<close>

definition sos_exhausted :: buffers where
  "sos_exhausted =
     (init_state sos_config board)
       \<lparr>free_pool := \<lparr>capacity = 512, elems = []\<rparr>,
        owned := map int [0..<512],
        trace := trace (init_state sos_config board) @
                 map (\<lambda>i. sos_dma_cache_invalidate (2048 * (i + 1)) 2048) [0..<512]\<rparr>"

text \<open>
  The state of the source's configuration after the driver has taken 257 buffers for
  reception and has completed a one-buffer frame of 60 bytes in each of the first 256:
  the completion queue is at its capacity.
\<close>

definition sos_queue_full :: buffers where
  "sos_queue_full =
     (init_state sos_config board)
       \<lparr>free_pool := \<lparr>capacity = 512, elems = map int [257..<512]\<rparr>,
        rx_queue := \<lparr>capacity = 256, elems = map (\<lambda>i. \<lparr>buf_no = int i, length_rx = 60\<rparr>) [0..<256]\<rparr>,
        owned := map int [0..<257],
        trace := trace (init_state sos_config board) @
                 map (\<lambda>i. sos_dma_cache_invalidate (2048 * (i + 1)) 2048) [0..<257]\<rparr>"

text \<open>
  The number of frames a call of \<open>pico_eth_poll\<close> takes from the completion queue, the
  calls it makes for one frame, and the deliveries to the stack recorded in a state.
\<close>

definition frames_processed :: "buffers \<Rightarrow> int \<Rightarrow> nat" where
  "frames_processed s budget = min (nat budget) (length (elems (rx_queue s)))"

definition dispatch :: "buffers \<Rightarrow> rx_t \<Rightarrow> event list" where
  "dispatch s rx =
     [sos_dma_cache_invalidate (vaddr (dma_bufs s ! nat (buf_no rx))) (length_rx rx),
      pico_stack_recv (vaddr (dma_bufs s ! nat (buf_no rx))) (length_rx rx)]"

definition deliveries :: "buffers \<Rightarrow> event list" where
  "deliveries s = filter is_stack_recv (trace s)"

text \<open>
  The frames a call of \<open>pico_eth_poll\<close> serves (the oldest ones of the queue), and the
  state it leaves: these frames are out of the queue, their buffers are back in the
  free pool, and the calls made for them are recorded.
\<close>

definition served :: "buffers \<Rightarrow> int \<Rightarrow> rx_t list" where
  "served s budget = take (frames_processed s budget) (elems (rx_queue s))"

definition polled :: "buffers \<Rightarrow> int \<Rightarrow> buffers" where
  "polled s budget =
     s\<lparr>free_pool := (free_pool s)\<lparr>elems := elems (free_pool s) @ map buf_no (served s budget)\<rparr>,
       rx_queue := (rx_queue s)\<lparr>elems := drop (frames_processed s budget) (elems (rx_queue s))\<rparr>,
       owned := fold remove1 (map buf_no (served s budget)) (owned s),
       trace := trace s @ concat (map (dispatch s) (served s budget))\<rparr>"

text \<open>
  The pool of eight buffers after the driver has taken five of them and has completed a
  frame in each (of 60 to 64 bytes), and the same pool after a poll with budget 3 and
  after a second poll with budget 5.
\<close>

definition pool8_queued :: buffers where
  "pool8_queued =
     (init_state pool8_config board)
       \<lparr>free_pool := \<lparr>capacity = 8, elems = [5, 6, 7]\<rparr>,
        rx_queue := \<lparr>capacity = 6,
                     elems = [\<lparr>buf_no = 0, length_rx = 60\<rparr>, \<lparr>buf_no = 1, length_rx = 61\<rparr>,
                              \<lparr>buf_no = 2, length_rx = 62\<rparr>, \<lparr>buf_no = 3, length_rx = 63\<rparr>,
                              \<lparr>buf_no = 4, length_rx = 64\<rparr>]\<rparr>,
        owned := [0, 1, 2, 3, 4],
        trace := trace (init_state pool8_config board) @
                 [sos_dma_cache_invalidate 2048 2048, sos_dma_cache_invalidate 4096 2048,
                  sos_dma_cache_invalidate 6144 2048, sos_dma_cache_invalidate 8192 2048,
                  sos_dma_cache_invalidate 10240 2048]\<rparr>"

definition pool8_polled3 :: buffers where
  "pool8_polled3 =
     pool8_queued
       \<lparr>free_pool := \<lparr>capacity = 8, elems = [5, 6, 7, 0, 1, 2]\<rparr>,
        rx_queue := \<lparr>capacity = 6,
                     elems = [\<lparr>buf_no = 3, length_rx = 63\<rparr>, \<lparr>buf_no = 4, length_rx = 64\<rparr>]\<rparr>,
        owned := [3, 4],
        trace := trace pool8_queued @
                 [sos_dma_cache_invalidate 2048 60, pico_stack_recv 2048 60,
                  sos_dma_cache_invalidate 4096 61, pico_stack_recv 4096 61,
                  sos_dma_cache_invalidate 6144 62, pico_stack_recv 6144 62]\<rparr>"

definition pool8_polled5 :: buffers where
  "pool8_polled5 =
     pool8_polled3
       \<lparr>free_pool := \<lparr>capacity = 8, elems = [5, 6, 7, 0, 1, 2, 3, 4]\<rparr>,
        rx_queue := \<lparr>capacity = 6, elems = []\<rparr>,
        owned := [],
        trace := trace pool8_polled3 @
                 [sos_dma_cache_invalidate 8192 63, pico_stack_recv 8192 63,
                  sos_dma_cache_invalidate 10240 64, pico_stack_recv 10240 64]\<rparr>"

text \<open>
  The number of sends that a state has accepted (every accepted send calls \<open>memcpy\<close>
  once, and nothing else does), and the number of transmit completions in a list of
  actions.
\<close>

definition sends_accepted :: "buffers \<Rightarrow> nat" where
  "sends_accepted s = length (filter is_memcpy (trace s))"

definition tx_completions :: "action list \<Rightarrow> nat" where
  "tx_completions as = length (filter is_tx_complete as)"

text \<open>
  The pool of four buffers after two sends (of 100 and 200 bytes), after the transmit
  completion of the first, and after a further send of 300 bytes.
\<close>

definition pool4_two_sent :: buffers where
  "pool4_two_sent =
     pool4_init
       \<lparr>free_pool := \<lparr>capacity = 4, elems = [2, 3]\<rparr>,
        n_tx_bufs := 2,
        owned := [0, 1],
        trace := trace pool4_init @
                 [memcpy 2048 100, sos_dma_cache_clean 2048 100,
                  memcpy 4096 200, sos_dma_cache_clean 4096 200]\<rparr>"

definition pool4_one_done :: buffers where
  "pool4_one_done =
     pool4_two_sent\<lparr>free_pool := \<lparr>capacity = 4, elems = [2, 3, 0]\<rparr>, n_tx_bufs := 1, owned := [1]\<rparr>"

definition pool4_sent_again :: buffers where
  "pool4_sent_again =
     pool4_one_done
       \<lparr>free_pool := \<lparr>capacity = 4, elems = [3, 0]\<rparr>,
        n_tx_bufs := 2,
        owned := [1, 2],
        trace := trace pool4_one_done @ [memcpy 6144 300, sos_dma_cache_clean 6144 300]\<rparr>"

text \<open>
  The pool of four buffers after some traffic that respects ownership: the driver takes
  buffer 0 for reception, the stack sends 100 bytes (buffer 1), the driver takes buffer 2,
  completes a frame of 60 bytes in buffer 0, the stack polls, and the transmission is
  completed.
\<close>

definition pool4_traffic :: "action list" where
  "pool4_traffic =
     [Allocate_rx_buf 2048, Eth_send 100, Allocate_rx_buf 2048, Rx_complete 1 [0] [60],
      Eth_poll 4, Tx_complete 1]"

definition pool4_after_traffic :: buffers where
  "pool4_after_traffic =
     pool4_init
       \<lparr>free_pool := \<lparr>capacity = 4, elems = [3, 0, 1]\<rparr>,
        owned := [2],
        trace := trace pool4_init @
                 [sos_dma_cache_invalidate 2048 2048,
                  memcpy 4096 100, sos_dma_cache_clean 4096 100,
                  sos_dma_cache_invalidate 6144 2048,
                  sos_dma_cache_invalidate 2048 60, pico_stack_recv 2048 60]\<rparr>"

text \<open>
  Two states of the source's configuration that callers reach without respecting
  ownership: after two sends and two transmit completions of the same buffer 0, and
  after a transmit completion for buffer 0 while it waits in the completion queue.
\<close>

definition sos_double_completion :: buffers where
  "sos_double_completion =
     (init_state sos_config board)
       \<lparr>free_pool := \<lparr>capacity = 512, elems = map int [2..<512] @ [0, 0]\<rparr>,
        n_tx_bufs := 0,
        owned := [1],
        trace := trace (init_state sos_config board) @
                 [memcpy 2048 100, sos_dma_cache_clean 2048 100,
                  memcpy 4096 100, sos_dma_cache_clean 4096 100]\<rparr>"

definition sos_free_and_queued :: buffers where
  "sos_free_and_queued =
     (init_state sos_config board)
       \<lparr>free_pool := \<lparr>capacity = 512, elems = map int [1..<512] @ [0]\<rparr>,
        rx_queue := \<lparr>capacity = 256, elems = [\<lparr>buf_no = 0, length_rx = 60\<rparr>]\<rparr>,
        n_tx_bufs := - 1,
        owned := [],
        trace := trace (init_state sos_config board) @ [sos_dma_cache_invalidate 2048 2048]\<rparr>"

section \<open>Oversized sends\<close>

text \<open>
  C4. A send whose length is strictly greater than the buffer size returns 0 bytes sent,
  allocates nothing and leaves the free pool (and every other field of \<open>buffers\<close>) as it
  was; it only logs an error.
\<close>

theorem send_oversized_rejected:
  "int (BUF_SIZE c) < len \<Longrightarrow>
     pico_eth_send c s len = Inr (emit s [ZF_LOGE ''Buffer size %d too big, max %d''], 0) \<and>
     free_pool (emit s [ZF_LOGE ''Buffer size %d too big, max %d'']) = free_pool s \<and>
     owned (emit s [ZF_LOGE ''Buffer size %d too big, max %d'']) = owned s \<and>
     n_tx_bufs (emit s [ZF_LOGE ''Buffer size %d too big, max %d'']) = n_tx_bufs s \<and>
     rx_queue (emit s [ZF_LOGE ''Buffer size %d too big, max %d'']) = rx_queue s"
  by (simp add: pico_eth_send_def emit_def)

section \<open>Initialisation\<close>

lemma update_partial:
  "i < n \<Longrightarrow> (map f [0..<i] @ replicate (n - i) z)[i := d] = map f [0..<i] @ d # replicate (n - Suc i) z"
  by (cases "n - i") (simp_all add: list_update_append Suc_diff_Suc)

lemma init_partial_step:
  assumes "i < N_DMA_BUFS c"
  shows "(init_partial c p i)
           \<lparr>dma_bufs := (dma_bufs (init_partial c p i))[i := sos_dma_malloc p i],
            free_pool := bufferWrite (free_pool (init_partial c p i)) (int i),
            trace := trace (init_partial c p i) @
                     [sos_dma_cache_clean_invalidate (vaddr (sos_dma_malloc p i)) (BUF_SIZE c)]\<rparr>
         = init_partial c p (Suc i)"
  using assms
  by (simp add: init_partial_def bufferWrite_def isBufferFull_def update_partial)

lemma init_loop_partial:
  "i \<le> N_DMA_BUFS c \<Longrightarrow>
   init_loop c p i (init_partial c p i) =
     (if \<forall>j. i \<le> j \<and> j < N_DMA_BUFS c \<longrightarrow> vaddr (sos_dma_malloc p j) \<noteq> 0 \<and> clean_invalidate_ok p j
      then Inr (init_partial c p (N_DMA_BUFS c)) else Inl Fatal)"
proof (induction "N_DMA_BUFS c - i" arbitrary: i)
  case 0
  then have "i = N_DMA_BUFS c" by simp
  then show ?case by simp
next
  case (Suc k)
  then have lt: "i < N_DMA_BUFS c" and k: "k = N_DMA_BUFS c - Suc i" and le: "Suc i \<le> N_DMA_BUFS c"
    by simp_all
  note IH = Suc.hyps(1)[OF k le]
  have split: "(\<forall>j. i \<le> j \<and> j < N_DMA_BUFS c \<longrightarrow> vaddr (sos_dma_malloc p j) \<noteq> 0 \<and> clean_invalidate_ok p j)
      \<longleftrightarrow> (vaddr (sos_dma_malloc p i) \<noteq> 0 \<and> clean_invalidate_ok p i) \<and>
          (\<forall>j. Suc i \<le> j \<and> j < N_DMA_BUFS c \<longrightarrow> vaddr (sos_dma_malloc p j) \<noteq> 0 \<and> clean_invalidate_ok p j)"
    using lt by (metis Suc_leD le_antisym not_less_eq_eq order_refl)
  show ?case
    apply (subst init_loop.simps)
    apply (subst split)
    using lt IH by (simp add: Let_def init_partial_step del: init_loop.simps)
qed

lemma init_partial_full: "init_partial c p (N_DMA_BUFS c) = init_state c p"
  by (simp add: init_partial_def init_state_def)

lemma init_partial_0:
  "init_partial c p 0 =
     \<lparr>dma_bufs = replicate (N_DMA_BUFS c) \<lparr>vaddr = 0, paddr = 0\<rparr>,
      free_pool = bufferInit (N_DMA_BUFS c),
      rx_queue = bufferInit (N_RX_BUFS c),
      n_tx_bufs = 0, owned = [], trace = []\<rparr>"
  by (simp add: init_partial_def bufferInit_def)

lemma init_buffers_eq:
  "init_buffers c p = (if platform_ok c p then Inr (init_state c p) else Inl Fatal)"
proof -
  have "init_buffers c p =
          (if \<not> free_pool_calloc_ok p then Inl Fatal
           else if \<not> rx_queue_calloc_ok p then Inl Fatal
           else init_loop c p 0 (init_partial c p 0))"
    by (simp only: init_buffers_def init_partial_0)
  then show ?thesis
    using init_loop_partial[of 0 c p]
    by (auto simp add: platform_ok_def init_partial_full simp del: init_loop.simps)
qed

section \<open>Allocation and release\<close>

lemma int_of_long_id: "- (2 ^ 31) \<le> x \<Longrightarrow> x < 2 ^ 31 \<Longrightarrow> int_of_long x = x"
  by (simp add: int_of_long_def signed_take_bit_int_eq_self)

lemma alloc_dma_buf_empty:
  "isBufferEmpty (free_pool s) \<Longrightarrow>
   alloc_dma_buf s = (emit s [ZF_LOGE ''Out of preallocated eth buffers.''], - 1)"
  by (simp add: alloc_dma_buf_def)

lemma alloc_dma_buf_Cons:
  "elems (free_pool s) = x # xs \<Longrightarrow>
   alloc_dma_buf s =
     (s\<lparr>free_pool := (free_pool s)\<lparr>elems := xs\<rparr>, owned := owned s @ [int_of_long x]\<rparr>,
      int_of_long x)"
  by (simp add: alloc_dma_buf_def isBufferEmpty_def bufferRead_def Let_def)

lemma free_dma_buf_ok:
  "b < int (N_DMA_BUFS c) \<Longrightarrow> length (elems (free_pool s)) < capacity (free_pool s) \<Longrightarrow>
   free_dma_buf c s b =
     Inr (s\<lparr>free_pool := (free_pool s)\<lparr>elems := elems (free_pool s) @ [b]\<rparr>,
            owned := remove1 b (owned s)\<rparr>)"
  by (simp add: free_dma_buf_def isBufferFull_def bufferWrite_def Let_def)

lemma alloc_many_prefix:
  "elems (free_pool s) = xs @ ys \<Longrightarrow> \<forall>x \<in> set xs. - (2 ^ 31) \<le> x \<and> x < 2 ^ 31 \<Longrightarrow>
   alloc_many s (length xs) =
     (s\<lparr>free_pool := (free_pool s)\<lparr>elems := ys\<rparr>, owned := owned s @ xs\<rparr>, xs)"
proof (induction xs arbitrary: s)
  case Nil
  then show ?case by simp
next
  case (Cons x xs)
  let ?s1 = "s\<lparr>free_pool := (free_pool s)\<lparr>elems := xs @ ys\<rparr>, owned := owned s @ [x]\<rparr>"
  from Cons.prems have a: "alloc_dma_buf s = (?s1, x)"
    by (simp add: alloc_dma_buf_Cons int_of_long_id)
  have "alloc_many ?s1 (length xs) =
          (?s1\<lparr>free_pool := (free_pool ?s1)\<lparr>elems := ys\<rparr>, owned := owned ?s1 @ xs\<rparr>, xs)"
    using Cons.prems by (intro Cons.IH) simp_all
  with a show ?case by simp
qed

lemma init_state_pool:
  "free_pool (init_state c p) = \<lparr>capacity = N_DMA_BUFS c, elems = map int [0..<N_DMA_BUFS c]\<rparr>"
  by (simp add: init_state_def)

lemma init_buffers_Inr: "init_buffers c p = Inr s \<Longrightarrow> s = init_state c p \<and> platform_ok c p"
  by (simp add: init_buffers_eq split: if_splits)

lemma platform_ok_board: "platform_ok c board"
  by (simp add: platform_ok_def board_def)

lemma init_pool4: "init_state pool4_config board = pool4_init"
  by (simp add: init_state_def pool4_config_def pool4_init_def board_def upt_rec)

section \<open>Exhausting the pool\<close>

text \<open>
  C9. From the freshly initialised pool of capacity \<open>N_DMA_BUFS\<close>, that many allocations
  in a row all succeed: they return the handles \<open>0, 1, ...\<close> in this order, none of them
  the failure value \<open>-1\<close>, all distinct. The next allocation returns \<open>-1\<close>; it logs an
  error and changes nothing else.
\<close>

theorem allocate_until_exhausted:
  assumes "N_DMA_BUFS c \<le> 2 ^ 31"
    and "init_buffers c p = Inr s0"
    and "alloc_many s0 (N_DMA_BUFS c) = (s1, hs)"
  shows "hs = map int [0..<N_DMA_BUFS c] \<and> length hs = N_DMA_BUFS c \<and>
         (\<forall>h \<in> set hs. h \<noteq> - 1) \<and> distinct hs \<and>
         alloc_dma_buf s1 = (emit s1 [ZF_LOGE ''Out of preallocated eth buffers.''], - 1) \<and>
         free_pool (emit s1 [ZF_LOGE ''Out of preallocated eth buffers.'']) = free_pool s1 \<and>
         owned (emit s1 [ZF_LOGE ''Out of preallocated eth buffers.'']) = owned s1"
proof -
  let ?N = "N_DMA_BUFS c"
  let ?xs = "map int [0..<?N]"
  from assms(2) have s0: "s0 = init_state c p"
    by (simp add: init_buffers_Inr)
  have el: "elems (free_pool s0) = ?xs @ []"
    by (simp add: s0 init_state_pool)
  have rng: "\<forall>x \<in> set ?xs. - (2 ^ 31) \<le> x \<and> x < 2 ^ 31"
  proof
    fix x assume "x \<in> set ?xs"
    then obtain i where "x = int i" "i < ?N" by auto
    with assms(1) have "0 \<le> x" "x < 2 ^ 31" by simp_all
    then show "- (2 ^ 31) \<le> x \<and> x < 2 ^ 31" by simp
  qed
  have "alloc_many s0 (length ?xs) =
          (s0\<lparr>free_pool := (free_pool s0)\<lparr>elems := []\<rparr>, owned := owned s0 @ ?xs\<rparr>, ?xs)"
    by (rule alloc_many_prefix[OF el rng])
  with assms(3) have hs: "hs = ?xs"
    and s1: "s1 = s0\<lparr>free_pool := (free_pool s0)\<lparr>elems := []\<rparr>, owned := owned s0 @ ?xs\<rparr>"
    by simp_all
  have e: "isBufferEmpty (free_pool s1)"
    by (simp add: s1 isBufferEmpty_def)
  have d: "distinct hs"
    by (simp add: hs distinct_map)
  have n: "\<forall>h \<in> set hs. h \<noteq> - 1"
    by (auto simp add: hs)
  show ?thesis
    using hs d n alloc_dma_buf_empty[OF e] by (simp add: emit_def)
qed

theorem allocate_until_exhausted_witness:
  "N_DMA_BUFS pool4_config \<le> 2 ^ 31 \<and>
   init_buffers pool4_config board = Inr pool4_init \<and>
   alloc_many pool4_init (N_DMA_BUFS pool4_config) =
     (pool4_init\<lparr>free_pool := \<lparr>capacity = 4, elems = []\<rparr>, owned := [0, 1, 2, 3]\<rparr>, [0, 1, 2, 3]) \<and>
   distinct [0, 1, 2, 3 :: int] \<and>
   alloc_dma_buf (pool4_init\<lparr>free_pool := \<lparr>capacity = 4, elems = []\<rparr>, owned := [0, 1, 2, 3]\<rparr>) =
     (emit (pool4_init\<lparr>free_pool := \<lparr>capacity = 4, elems = []\<rparr>, owned := [0, 1, 2, 3]\<rparr>)
        [ZF_LOGE ''Out of preallocated eth buffers.''], - 1)"
proof -
  have h1: "N_DMA_BUFS pool4_config \<le> 2 ^ 31"
    by (simp add: pool4_config_def)
  have h2: "init_buffers pool4_config board = Inr pool4_init"
    by (simp add: init_buffers_eq platform_ok_board init_pool4)
  have "alloc_many pool4_init (length [0, 1, 2, 3 :: int]) =
          (pool4_init\<lparr>free_pool := (free_pool pool4_init)\<lparr>elems := []\<rparr>,
                       owned := owned pool4_init @ [0, 1, 2, 3]\<rparr>, [0, 1, 2, 3])"
    by (rule alloc_many_prefix) (simp_all add: pool4_init_def)
  moreover have "length [0, 1, 2, 3 :: int] = N_DMA_BUFS pool4_config"
    by (simp add: pool4_config_def)
  moreover have "pool4_init\<lparr>free_pool := (free_pool pool4_init)\<lparr>elems := []\<rparr>,
                            owned := owned pool4_init @ [0, 1, 2, 3]\<rparr> =
                 pool4_init\<lparr>free_pool := \<lparr>capacity = 4, elems = []\<rparr>, owned := [0, 1, 2, 3]\<rparr>"
    by (simp add: pool4_init_def)
  ultimately have h3: "alloc_many pool4_init (N_DMA_BUFS pool4_config) =
     (pool4_init\<lparr>free_pool := \<lparr>capacity = 4, elems = []\<rparr>, owned := [0, 1, 2, 3]\<rparr>, [0, 1, 2, 3])"
    by (simp only:)
  from allocate_until_exhausted[OF h1 h2 h3]
  have d: "distinct [0, 1, 2, 3 :: int]"
    and a: "alloc_dma_buf (pool4_init\<lparr>free_pool := \<lparr>capacity = 4, elems = []\<rparr>, owned := [0, 1, 2, 3]\<rparr>) =
     (emit (pool4_init\<lparr>free_pool := \<lparr>capacity = 4, elems = []\<rparr>, owned := [0, 1, 2, 3]\<rparr>)
        [ZF_LOGE ''Out of preallocated eth buffers.''], - 1)"
    by blast+
  from h1 h2 h3 d a show ?thesis
    by (intro conjI)
qed

theorem send_oversized_rejected_witness:
  "int (BUF_SIZE pool4_config) < 2049 \<and>
   pico_eth_send pool4_config pool4_init 2049 =
     Inr (emit pool4_init [ZF_LOGE ''Buffer size %d too big, max %d''], 0) \<and>
   free_pool (emit pool4_init [ZF_LOGE ''Buffer size %d too big, max %d'']) =
     \<lparr>capacity = 4, elems = [0, 1, 2, 3]\<rparr>"
proof -
  have h: "int (BUF_SIZE pool4_config) < 2049"
    by (simp add: pool4_config_def)
  show ?thesis
    using send_oversized_rejected[OF h, of pool4_init] h by (simp add: pool4_init_def)
qed

section \<open>Runs\<close>

lemma run_append:
  "run c s (as @ bs) = (case run c s as of Inl e \<Rightarrow> Inl e | Inr s' \<Rightarrow> run c s' bs)"
  by (induction as arbitrary: s) (auto split: sum.splits)

lemma array_read_nth: "0 \<le> i \<Longrightarrow> i < int (length a) \<Longrightarrow> array_read a i = Inr (a ! nat i)"
  by (simp add: array_read_def)

lemma allocate_rx_buf_Cons:
  assumes "elems (free_pool s) = x # xs" "0 \<le> x" "x < int (length (dma_bufs s))" "x < 2 ^ 31"
    and "n \<le> BUF_SIZE c"
  shows "pico_allocate_rx_buf c s n =
           Inr (s\<lparr>free_pool := (free_pool s)\<lparr>elems := xs\<rparr>, owned := owned s @ [x],
                  trace := trace s @
                    [sos_dma_cache_invalidate (vaddr (dma_bufs s ! nat x)) (int (BUF_SIZE c))]\<rparr>,
                paddr (dma_bufs s ! nat x), Some x)"
proof -
  have "int_of_long x = x"
    using assms(2,4) by (simp add: int_of_long_id)
  then show ?thesis
    using assms by (simp add: pico_allocate_rx_buf_def alloc_dma_buf_Cons array_read_nth emit_def)
qed

lemma run_allocate_rx:
  "elems (free_pool s) = xs @ ys \<Longrightarrow>
   \<forall>x \<in> set xs. 0 \<le> x \<and> x < int (length (dma_bufs s)) \<and> x < 2 ^ 31 \<Longrightarrow>
   n \<le> BUF_SIZE c \<Longrightarrow>
   run c s (replicate (length xs) (Allocate_rx_buf n)) =
     Inr (s\<lparr>free_pool := (free_pool s)\<lparr>elems := ys\<rparr>, owned := owned s @ xs,
            trace := trace s @
              map (\<lambda>x. sos_dma_cache_invalidate (vaddr (dma_bufs s ! nat x)) (int (BUF_SIZE c))) xs\<rparr>)"
proof (induction xs arbitrary: s)
  case Nil
  then show ?case by simp
next
  case (Cons x xs)
  let ?s1 = "s\<lparr>free_pool := (free_pool s)\<lparr>elems := xs @ ys\<rparr>, owned := owned s @ [x],
                trace := trace s @
                  [sos_dma_cache_invalidate (vaddr (dma_bufs s ! nat x)) (int (BUF_SIZE c))]\<rparr>"
  from Cons.prems have a: "pico_allocate_rx_buf c s n = Inr (?s1, paddr (dma_bufs s ! nat x), Some x)"
    by (simp add: allocate_rx_buf_Cons)
  have "run c ?s1 (replicate (length xs) (Allocate_rx_buf n)) =
     Inr (?s1\<lparr>free_pool := (free_pool ?s1)\<lparr>elems := ys\<rparr>, owned := owned ?s1 @ xs,
            trace := trace ?s1 @
              map (\<lambda>x. sos_dma_cache_invalidate (vaddr (dma_bufs ?s1 ! nat x)) (int (BUF_SIZE c))) xs\<rparr>)"
    using Cons.prems by (intro Cons.IH) simp_all
  with a show ?case by simp
qed

lemma rx_complete_single:
  "num_bufs \<le> 1 \<Longrightarrow> length (elems (rx_queue s)) < capacity (rx_queue s) \<Longrightarrow>
   pico_rx_complete c s num_bufs (ck # cks) (ln # lns) =
     Inr (s\<lparr>rx_queue := (rx_queue s)\<lparr>elems := elems (rx_queue s) @ [\<lparr>buf_no = ck, length_rx = ln\<rparr>]\<rparr>\<rparr>)"
  by (simp add: pico_rx_complete_def isBufferFull_def bufferWrite_def array_read_def Let_def)

lemma run_rx_complete_single:
  "length (elems (rx_queue s)) + length is \<le> capacity (rx_queue s) \<Longrightarrow>
   run c s (map (\<lambda>i. Rx_complete 1 [f i] [g i]) is) =
     Inr (s\<lparr>rx_queue := (rx_queue s)
            \<lparr>elems := elems (rx_queue s) @ map (\<lambda>i. \<lparr>buf_no = f i, length_rx = g i\<rparr>) is\<rparr>\<rparr>)"
proof (induction "is" arbitrary: s)
  case Nil
  then show ?case by simp
next
  case (Cons i "is")
  let ?s1 = "s\<lparr>rx_queue := (rx_queue s)\<lparr>elems := elems (rx_queue s) @ [\<lparr>buf_no = f i, length_rx = g i\<rparr>]\<rparr>\<rparr>"
  from Cons.prems have a: "pico_rx_complete c s 1 [f i] [g i] = Inr ?s1"
    by (simp add: rx_complete_single)
  have "run c ?s1 (map (\<lambda>i. Rx_complete 1 [f i] [g i]) is) =
     Inr (?s1\<lparr>rx_queue := (rx_queue ?s1)
            \<lparr>elems := elems (rx_queue ?s1) @ map (\<lambda>i. \<lparr>buf_no = f i, length_rx = g i\<rparr>) is\<rparr>\<rparr>)"
    using Cons.prems by (intro Cons.IH) simp
  with a show ?case by simp
qed

section \<open>The states of the source's configuration\<close>

lemma init_sos: "init_buffers sos_config board = Inr (init_state sos_config board)"
  by (simp add: init_buffers_eq platform_ok_board)

lemma sos_vaddr:
  "i < 512 \<Longrightarrow> vaddr (dma_bufs (init_state sos_config board) ! i) = 2048 * (i + 1)"
  by (simp add: init_state_def sos_config_def board_def)

lemma sos_invalidate_trace:
  "k \<le> 512 \<Longrightarrow>
   map (\<lambda>x. sos_dma_cache_invalidate (vaddr (dma_bufs (init_state sos_config board) ! nat x))
              (int (BUF_SIZE sos_config))) (map int [0..<k]) =
   map (\<lambda>i. sos_dma_cache_invalidate (2048 * (i + 1)) 2048) [0..<k]"
  by (simp add: sos_vaddr) (simp add: sos_config_def)

lemma sos_allocate_rx:
  assumes "k \<le> 512"
  shows "run sos_config (init_state sos_config board) (replicate k (Allocate_rx_buf 2048)) =
     Inr ((init_state sos_config board)
            \<lparr>free_pool := \<lparr>capacity = 512, elems = map int [k..<512]\<rparr>,
             owned := map int [0..<k],
             trace := trace (init_state sos_config board) @
                      map (\<lambda>i. sos_dma_cache_invalidate (2048 * (i + 1)) 2048) [0..<k]\<rparr>)"
proof -
  let ?s = "init_state sos_config board"
  have split: "[0..<512] = [0..<k] @ [k..<512]"
    using assms upt_add_eq_append[of 0 k "512 - k"] by simp
  have el: "elems (free_pool ?s) = map int [0..<k] @ map int [k..<512]"
    by (simp add: init_state_pool sos_config_def) (simp add: split)
  have len: "length (dma_bufs ?s) = 512"
    by (simp add: init_state_def sos_config_def)
  have rng: "\<forall>x \<in> set (map int [0..<k]). 0 \<le> x \<and> x < int (length (dma_bufs ?s)) \<and> x < 2 ^ 31"
    using assms by (auto simp add: len)
  have n: "2048 \<le> BUF_SIZE sos_config"
    by (simp add: sos_config_def)
  have "run sos_config ?s (replicate (length (map int [0..<k])) (Allocate_rx_buf 2048)) =
     Inr (?s\<lparr>free_pool := (free_pool ?s)\<lparr>elems := map int [k..<512]\<rparr>,
             owned := owned ?s @ map int [0..<k],
             trace := trace ?s @
               map (\<lambda>x. sos_dma_cache_invalidate (vaddr (dma_bufs ?s ! nat x)) (int (BUF_SIZE sos_config)))
                 (map int [0..<k])\<rparr>)"
    by (rule run_allocate_rx[OF el rng n])
  moreover have "owned ?s = []" "capacity (free_pool ?s) = 512"
    by (simp_all add: init_state_def sos_config_def)
  ultimately show ?thesis
    using sos_invalidate_trace[OF assms] by simp
qed

lemma sos_exhausted_reached:
  "run sos_config (init_state sos_config board) (replicate 512 (Allocate_rx_buf 2048)) = Inr sos_exhausted"
  using sos_allocate_rx[of 512] by (simp add: sos_exhausted_def)

lemma sos_queue_full_reached:
  "run sos_config (init_state sos_config board)
     (replicate 257 (Allocate_rx_buf 2048) @ map (\<lambda>i. Rx_complete 1 [int i] [60]) [0..<256]) =
   Inr sos_queue_full"
proof -
  let ?s1 = "(init_state sos_config board)
            \<lparr>free_pool := \<lparr>capacity = 512, elems = map int [257..<512]\<rparr>,
             owned := map int [0..<257],
             trace := trace (init_state sos_config board) @
                      map (\<lambda>i. sos_dma_cache_invalidate (2048 * (i + 1)) 2048) [0..<257]\<rparr>"
  have a: "run sos_config (init_state sos_config board) (replicate 257 (Allocate_rx_buf 2048)) = Inr ?s1"
    using sos_allocate_rx[of 257] by (simp del: upt_rec_numeral)
  have q: "rx_queue (init_state sos_config board) = \<lparr>capacity = 256, elems = []\<rparr>"
    by (simp add: init_state_def sos_config_def)
  have "run sos_config ?s1 (map (\<lambda>i. Rx_complete 1 [int i] [60]) [0..<256]) =
     Inr (?s1\<lparr>rx_queue := (rx_queue ?s1)
            \<lparr>elems := elems (rx_queue ?s1) @ map (\<lambda>i. \<lparr>buf_no = int i, length_rx = 60\<rparr>) [0..<256]\<rparr>\<rparr>)"
    by (rule run_rx_complete_single) (simp add: init_state_def sos_config_def)
  then have b: "run sos_config ?s1 (map (\<lambda>i. Rx_complete 1 [int i] [60]) [0..<256]) = Inr sos_queue_full"
    by (simp add: q sos_queue_full_def del: upt_rec_numeral)
  show ?thesis
    by (simp only: run_append a b sum.case)
qed

section \<open>A send when the pool is exhausted\<close>

text \<open>
  C2. The claim is that a send whose allocation fails returns 0 bytes sent, copies
  nothing and leaves the pool and the in-flight counter unchanged. \<open>pico_eth_send\<close> does
  not test the result of \<open>alloc_dma_buf\<close> (\<open>pico_allocate_rx_buf\<close> does): with an empty
  pool, a length within the buffer size and the counter below its maximum, it counts the
  transmission and then uses \<open>dma_bufs[-1]\<close>, so the call does not return 0.
\<close>

theorem send_on_exhausted_pool:
  assumes "isBufferEmpty (free_pool s)"
    and "len \<le> int (BUF_SIZE c)"
    and "n_tx_bufs s \<noteq> int (N_TX_BUFS c)"
    and "n_tx_bufs s \<noteq> INT_MAX"
  shows "pico_eth_send c s len = Inl (Out_of_bounds (- 1)) \<and>
         pico_eth_send c s len \<noteq> Inr (s, 0)"
  using assms
  by (simp add: pico_eth_send_def alloc_dma_buf_empty emit_def array_read_def)

theorem send_on_exhausted_pool_witness:
  "init_buffers sos_config board = Inr (init_state sos_config board) \<and>
   run sos_config (init_state sos_config board) (replicate 512 (Allocate_rx_buf 2048)) =
     Inr sos_exhausted \<and>
   isBufferEmpty (free_pool sos_exhausted) \<and>
   n_tx_bufs sos_exhausted = 0 \<and>
   pico_eth_send sos_config sos_exhausted 100 = Inl (Out_of_bounds (- 1)) \<and>
   pico_eth_send sos_config sos_exhausted 100 \<noteq> Inr (sos_exhausted, 0)"
proof -
  have e: "isBufferEmpty (free_pool sos_exhausted)"
    by (simp add: sos_exhausted_def isBufferEmpty_def)
  have n: "n_tx_bufs sos_exhausted = 0"
    by (simp add: sos_exhausted_def init_state_def)
  have l: "100 \<le> int (BUF_SIZE sos_config)"
    by (simp add: sos_config_def)
  have m: "n_tx_bufs sos_exhausted \<noteq> int (N_TX_BUFS sos_config)"
    by (simp add: n sos_config_def)
  have i: "n_tx_bufs sos_exhausted \<noteq> INT_MAX"
    by (simp add: n INT_MAX_def)
  from send_on_exhausted_pool[OF e l m i] init_sos sos_exhausted_reached e n
  show ?thesis by (intro conjI) blast+
qed

section \<open>A receive completion when the completion queue is full\<close>

text \<open>
  C3 as stated: a receive completion that finds the completion queue at its capacity is
  rejected, and the buffer of the frame goes back to the pool. In the source's
  configuration, with 256 frames queued, the completion of a frame in buffer 256 does
  not return: the assertion \<open>!isBufferFull(rx_queue)\<close> fails, and the buffer is not
  released.
\<close>

theorem rx_complete_full_queue_counterexample:
  "run sos_config (init_state sos_config board)
     (replicate 257 (Allocate_rx_buf 2048) @ map (\<lambda>i. Rx_complete 1 [int i] [60]) [0..<256]) =
     Inr sos_queue_full \<and>
   isBufferFull (rx_queue sos_queue_full) \<and>
   pico_rx_complete sos_config sos_queue_full 1 [256] [60] = Inl Assert_failed \<and>
   pico_rx_complete sos_config sos_queue_full 1 [256] [60] \<noteq>
     Inr (sos_queue_full\<lparr>free_pool := \<lparr>capacity = 512, elems = map int [257..<512] @ [256]\<rparr>,
                          owned := map int [0..<256]\<rparr>)"
proof -
  have f: "isBufferFull (rx_queue sos_queue_full)"
    by (simp add: sos_queue_full_def isBufferFull_def)
  then have "pico_rx_complete sos_config sos_queue_full 1 [256] [60] = Inl Assert_failed"
    by (simp add: pico_rx_complete_def)
  with f sos_queue_full_reached show ?thesis
    by simp
qed

text \<open>
  C3, amended. A receive completion of a frame in at most one buffer that finds the
  completion queue at its capacity fails the assertion of \<open>pico_rx_complete\<close>: the call
  aborts, nothing is enqueued and no buffer is released.
\<close>

theorem rx_complete_full_queue_asserts:
  "isBufferFull (rx_queue s) \<Longrightarrow> num_bufs \<le> 1 \<Longrightarrow>
   pico_rx_complete c s num_bufs cookies lens = Inl Assert_failed"
  by (simp add: pico_rx_complete_def)

theorem rx_complete_full_queue_asserts_witness:
  "isBufferFull (rx_queue sos_queue_full) \<and> (1::nat) \<le> 1 \<and>
   pico_rx_complete sos_config sos_queue_full 1 [256] [60] = Inl Assert_failed"
proof -
  have f: "isBufferFull (rx_queue sos_queue_full)"
    by (simp add: sos_queue_full_def isBufferFull_def)
  have l: "(1::nat) \<le> 1"
    by simp
  from rx_complete_full_queue_asserts[OF f l] f l show ?thesis
    by (intro conjI)
qed

section \<open>A receive completion without a buffer\<close>

text \<open>
  C10. Called with \<open>num_bufs = 0\<close>, \<open>pico_rx_complete\<close> takes the branch of the frame in one
  buffer: once its assertion on the queue has passed, it reads \<open>cookies[0]\<close> and
  \<open>lens[0]\<close>, which are outside the (empty) arrays. With one buffer reported the same
  branch enqueues the frame.
\<close>

theorem rx_complete_without_buffers:
  "pico_rx_complete c s 0 [] lens =
     (if isBufferFull (rx_queue s) then Inl Assert_failed else Inl (Out_of_bounds 0)) \<and>
   pico_rx_complete c s 0 (ck # cookies) [] =
     (if isBufferFull (rx_queue s) then Inl Assert_failed else Inl (Out_of_bounds 0)) \<and>
   pico_rx_complete c s 1 [ck] [ln] =
     (if isBufferFull (rx_queue s) then Inl Assert_failed
      else Inr (s\<lparr>rx_queue := (rx_queue s)
                  \<lparr>elems := elems (rx_queue s) @ [\<lparr>buf_no = ck, length_rx = ln\<rparr>]\<rparr>\<rparr>))"
  by (simp add: pico_rx_complete_def array_read_def bufferWrite_def Let_def)

theorem rx_complete_without_buffers_witness:
  "\<not> isBufferFull (rx_queue pool4_init) \<and>
   pico_rx_complete pool4_config pool4_init 0 [] [] = Inl (Out_of_bounds 0)"
proof -
  have f: "\<not> isBufferFull (rx_queue pool4_init)"
    by (simp add: pool4_init_def isBufferFull_def)
  from rx_complete_without_buffers[of pool4_config pool4_init "[]"] f show ?thesis
    by simp
qed

section \<open>Releasing a handle twice\<close>

text \<open>
  C8 as stated: a release of a handle that is not owned outside the pool is rejected or
  caught by an assertion, so the free list never holds an index twice. In the source's
  configuration, after two allocations (handles 0 and 1), handle 0 is released twice:
  both releases are accepted and the free list ends with two entries 0.
\<close>

theorem double_release_counterexample:
  "run sos_config (init_state sos_config board)
     [Alloc_dma_buf, Alloc_dma_buf, Free_dma_buf 0, Free_dma_buf 0] =
     Inr ((init_state sos_config board)
            \<lparr>free_pool := \<lparr>capacity = 512, elems = map int [2..<512] @ [0, 0]\<rparr>, owned := [1]\<rparr>) \<and>
   \<not> distinct (map int [2..<512] @ [0, 0])"
proof -
  let ?s = "init_state sos_config board"
  have "[0..<512] = 0 # Suc 0 # [Suc (Suc 0)..<512]"
    using upt_conv_Cons[of 0 512] upt_conv_Cons[of "Suc 0" 512] by simp
  then have u: "map int [0..<512] = 0 # 1 # map int [2..<512]"
    by (simp add: numeral_2_eq_2 del: upt_rec_numeral)
  have p: "free_pool ?s = \<lparr>capacity = 512, elems = 0 # 1 # map int [2..<512]\<rparr>"
    by (simp add: init_state_pool sos_config_def u del: upt_rec_numeral)
  have o: "owned ?s = []"
    by (simp add: init_state_def)
  have n: "N_DMA_BUFS sos_config = 512"
    by (simp add: sos_config_def)
  show ?thesis
    by (simp add: p o n alloc_dma_buf_Cons int_of_long_id free_dma_buf_ok del: upt_rec_numeral)
qed

text \<open>
  C8, amended. \<open>free_dma_buf\<close> checks two things only. A release is caught by an
  assertion when the handle is not below \<open>N_DMA_BUFS\<close> or when the free list is full (so
  a release while every buffer is free is caught). Any other release of a handle from 0
  on is accepted, whoever owns the buffer: the handle is appended to the free list.
\<close>

theorem release_checks:
  "0 \<le> b \<Longrightarrow>
   free_dma_buf c s b =
     (if int (N_DMA_BUFS c) \<le> b \<or> isBufferFull (free_pool s) then Inl Assert_failed
      else Inr (s\<lparr>free_pool := (free_pool s)\<lparr>elems := elems (free_pool s) @ [b]\<rparr>,
                  owned := remove1 b (owned s)\<rparr>))"
  by (simp add: free_dma_buf_def bufferWrite_def Let_def)

theorem release_checks_witness:
  "(0::int) \<le> 0 \<and>
   free_dma_buf pool4_config pool4_init 0 = Inl Assert_failed \<and>
   free_dma_buf pool4_config (pool4_init\<lparr>free_pool := \<lparr>capacity = 4, elems = [2, 3, 0]\<rparr>, owned := [1]\<rparr>) 0 =
     Inr (pool4_init\<lparr>free_pool := \<lparr>capacity = 4, elems = [2, 3, 0, 0]\<rparr>, owned := [1]\<rparr>)"
proof -
  have z: "(0::int) \<le> 0"
    by simp
  have a: "free_dma_buf pool4_config pool4_init 0 = Inl Assert_failed"
    using release_checks[OF z, of pool4_config pool4_init]
    by (simp add: pool4_config_def pool4_init_def isBufferFull_def)
  have b: "free_dma_buf pool4_config (pool4_init\<lparr>free_pool := \<lparr>capacity = 4, elems = [2, 3, 0]\<rparr>, owned := [1]\<rparr>) 0 =
     Inr (pool4_init\<lparr>free_pool := \<lparr>capacity = 4, elems = [2, 3, 0, 0]\<rparr>, owned := [1]\<rparr>)"
    using release_checks[OF z, of pool4_config "pool4_init\<lparr>free_pool := \<lparr>capacity = 4, elems = [2, 3, 0]\<rparr>, owned := [1]\<rparr>"]
    by (simp add: pool4_config_def pool4_init_def isBufferFull_def)
  from z a b show ?thesis
    by (intro conjI)
qed

section \<open>Split frames\<close>

lemma rx_free_loop_releases:
  "i \<le> num_bufs \<Longrightarrow> num_bufs \<le> length cookies \<Longrightarrow>
   \<forall>ck \<in> set (drop i (take num_bufs cookies)). ck < int (N_DMA_BUFS c) \<Longrightarrow>
   length (elems (free_pool s)) + (num_bufs - i) \<le> capacity (free_pool s) \<Longrightarrow>
   rx_free_loop c s i num_bufs cookies =
     Inr (s\<lparr>free_pool := (free_pool s)\<lparr>elems := elems (free_pool s) @ drop i (take num_bufs cookies)\<rparr>,
            owned := fold remove1 (drop i (take num_bufs cookies)) (owned s)\<rparr>)"
proof (induction "num_bufs - i" arbitrary: i s)
  case 0
  then have "i = num_bufs" by simp
  then show ?case by simp
next
  case (Suc k)
  then have lt: "i < num_bufs" and k: "k = num_bufs - Suc i" and le: "Suc i \<le> num_bufs"
    by simp_all
  from lt Suc.prems(2) have il: "i < length (take num_bufs cookies)"
    by simp
  have d: "drop i (take num_bufs cookies) = cookies ! i # drop (Suc i) (take num_bufs cookies)"
    using Cons_nth_drop_Suc[OF il] lt by simp
  let ?s1 = "s\<lparr>free_pool := (free_pool s)\<lparr>elems := elems (free_pool s) @ [cookies ! i]\<rparr>,
                owned := remove1 (cookies ! i) (owned s)\<rparr>"
  have r: "array_read cookies (int i) = Inr (cookies ! i)"
    using lt Suc.prems(2) by (simp add: array_read_def)
  have f: "free_dma_buf c s (cookies ! i) = Inr ?s1"
    using Suc.prems(3,4) lt by (intro free_dma_buf_ok) (simp_all add: d)
  have "rx_free_loop c ?s1 (Suc i) num_bufs cookies =
     Inr (?s1\<lparr>free_pool := (free_pool ?s1)
              \<lparr>elems := elems (free_pool ?s1) @ drop (Suc i) (take num_bufs cookies)\<rparr>,
            owned := fold remove1 (drop (Suc i) (take num_bufs cookies)) (owned ?s1)\<rparr>)"
    using Suc.prems(2,3,4) lt by (intro Suc.hyps(1)[OF k le]) (simp_all add: d)
  then show ?case
    using lt r f by (subst rx_free_loop.simps) (simp add: d del: rx_free_loop.simps)
qed

text \<open>
  C7. A receive completion that reports more than one buffer logs the warning and
  releases every one of the buffers, in order; it enqueues nothing and delivers nothing
  to the stack. The call returns when the handles are below \<open>N_DMA_BUFS\<close> and the free
  list has room for them, as it has for buffers that came out of it.
\<close>

theorem split_frame_released:
  assumes "1 < num_bufs" and "num_bufs \<le> length cookies"
    and "\<forall>ck \<in> set (take num_bufs cookies). ck < int (N_DMA_BUFS c)"
    and "length (elems (free_pool s)) + num_bufs \<le> capacity (free_pool s)"
  shows "\<exists>s'. pico_rx_complete c s num_bufs cookies lens = Inr s' \<and>
           elems (free_pool s') = elems (free_pool s) @ take num_bufs cookies \<and>
           owned s' = fold remove1 (take num_bufs cookies) (owned s) \<and>
           trace s' = trace s @ [ZF_LOGW ''Frame splitting not handled''] \<and>
           deliveries s' = deliveries s \<and>
           rx_queue s' = rx_queue s \<and>
           n_tx_bufs s' = n_tx_bufs s"
proof -
  let ?s0 = "emit s [ZF_LOGW ''Frame splitting not handled'']"
  have "rx_free_loop c ?s0 0 num_bufs cookies =
     Inr (?s0\<lparr>free_pool := (free_pool ?s0)
              \<lparr>elems := elems (free_pool ?s0) @ drop 0 (take num_bufs cookies)\<rparr>,
            owned := fold remove1 (drop 0 (take num_bufs cookies)) (owned ?s0)\<rparr>)"
    using assms by (intro rx_free_loop_releases) (simp_all add: emit_def)
  with assms(1) show ?thesis
    by (simp add: pico_rx_complete_def emit_def deliveries_def del: rx_free_loop.simps)
qed

theorem split_frame_released_witness:
  "\<exists>s'. pico_rx_complete pool4_config
            (pool4_init\<lparr>free_pool := \<lparr>capacity = 4, elems = [3]\<rparr>, owned := [0, 1, 2]\<rparr>)
            2 [0, 1] [1500, 200] = Inr s' \<and>
         elems (free_pool s') = [3, 0, 1] \<and>
         owned s' = [2] \<and>
         trace s' = trace pool4_init @ [ZF_LOGW ''Frame splitting not handled''] \<and>
         deliveries s' = [] \<and>
         rx_queue s' = \<lparr>capacity = 2, elems = []\<rparr>"
proof -
  let ?s = "pool4_init\<lparr>free_pool := \<lparr>capacity = 4, elems = [3]\<rparr>, owned := [0, 1, 2]\<rparr>"
  have h1: "(1::nat) < 2" by simp
  have h2: "2 \<le> length [0, 1 :: int]" by simp
  have h3: "\<forall>ck \<in> set (take 2 [0, 1]). ck < int (N_DMA_BUFS pool4_config)"
    by (simp add: pool4_config_def)
  have h4: "length (elems (free_pool ?s)) + 2 \<le> capacity (free_pool ?s)"
    by simp
  have d: "deliveries ?s = []" "rx_queue ?s = \<lparr>capacity = 2, elems = []\<rparr>"
    by (simp_all add: deliveries_def pool4_init_def)
  from split_frame_released[OF h1 h2 h3 h4, of "[1500, 200]"] show ?thesis
    by (simp add: d) blast
qed

section \<open>Polling\<close>

lemma poll_noop:
  "budget \<le> 0 \<or> isBufferEmpty (rx_queue s) \<Longrightarrow> pico_eth_poll c s budget = Inr (s, budget)"
  by (subst pico_eth_poll.simps) (auto simp add: Let_def simp del: pico_eth_poll.simps)

lemma poll_step:
  assumes "0 < budget" and "elems (rx_queue s) = rx # q"
    and "0 \<le> buf_no rx" "buf_no rx < int (length (dma_bufs s))" "buf_no rx < int (N_DMA_BUFS c)"
    and "length (elems (free_pool s)) < capacity (free_pool s)"
  shows "pico_eth_poll c s budget =
     pico_eth_poll c
       (s\<lparr>free_pool := (free_pool s)\<lparr>elems := elems (free_pool s) @ [buf_no rx]\<rparr>,
          rx_queue := (rx_queue s)\<lparr>elems := q\<rparr>,
          owned := remove1 (buf_no rx) (owned s),
          trace := trace s @ dispatch s rx\<rparr>)
       (budget - 1)"
proof -
  let ?s1 = "s\<lparr>rx_queue := (rx_queue s)\<lparr>elems := q\<rparr>,
                trace := trace s @
                  [sos_dma_cache_invalidate (vaddr (dma_bufs s ! nat (buf_no rx))) (length_rx rx),
                   pico_stack_recv (vaddr (dma_bufs s ! nat (buf_no rx))) (length_rx rx)]\<rparr>"
  let ?s2 = "s\<lparr>free_pool := (free_pool s)\<lparr>elems := elems (free_pool s) @ [buf_no rx]\<rparr>,
          rx_queue := (rx_queue s)\<lparr>elems := q\<rparr>,
          owned := remove1 (buf_no rx) (owned s),
          trace := trace s @ dispatch s rx\<rparr>"
  have e: "\<not> isBufferEmpty (rx_queue s)"
    using assms(2) by (simp add: isBufferEmpty_def)
  have b: "bufferRead (rx_queue s) = Some (rx, (rx_queue s)\<lparr>elems := q\<rparr>)"
    using assms(2) by (simp add: bufferRead_def)
  have a: "array_read (dma_bufs s) (buf_no rx) = Inr (dma_bufs s ! nat (buf_no rx))"
    using assms(3,4) by (rule array_read_nth)
  have "free_dma_buf c ?s1 (buf_no rx) =
     Inr (?s1\<lparr>free_pool := (free_pool ?s1)\<lparr>elems := elems (free_pool ?s1) @ [buf_no rx]\<rparr>,
              owned := remove1 (buf_no rx) (owned ?s1)\<rparr>)"
    using assms(5,6) by (intro free_dma_buf_ok) simp_all
  moreover have "?s1\<lparr>free_pool := (free_pool ?s1)\<lparr>elems := elems (free_pool ?s1) @ [buf_no rx]\<rparr>,
              owned := remove1 (buf_no rx) (owned ?s1)\<rparr> = ?s2"
    by (rule buffers.equality) (simp_all add: dispatch_def)
  ultimately have f: "free_dma_buf c ?s1 (buf_no rx) = Inr ?s2"
    by (simp only:)
  show ?thesis
    using assms(1) e
    by (subst pico_eth_poll.simps)
       (simp add: Let_def b a f emit_def del: pico_eth_poll.simps)
qed

lemma poll_result:
  "\<forall>rx \<in> set (take (frames_processed s budget) (elems (rx_queue s))).
      0 \<le> buf_no rx \<and> buf_no rx < int (length (dma_bufs s)) \<and> buf_no rx < int (N_DMA_BUFS c) \<Longrightarrow>
   length (elems (free_pool s)) + frames_processed s budget \<le> capacity (free_pool s) \<Longrightarrow>
   pico_eth_poll c s budget =
     Inr (s\<lparr>free_pool := (free_pool s)
              \<lparr>elems := elems (free_pool s) @
                         map buf_no (take (frames_processed s budget) (elems (rx_queue s)))\<rparr>,
            rx_queue := (rx_queue s)\<lparr>elems := drop (frames_processed s budget) (elems (rx_queue s))\<rparr>,
            owned := fold remove1 (map buf_no (take (frames_processed s budget) (elems (rx_queue s))))
                       (owned s),
            trace := trace s @
                     concat (map (dispatch s) (take (frames_processed s budget) (elems (rx_queue s))))\<rparr>,
          budget - int (frames_processed s budget))"
proof (induction "nat budget" arbitrary: s budget)
  case 0
  then have b: "budget \<le> 0" by simp
  then have "frames_processed s budget = 0"
    by (simp add: frames_processed_def)
  then show ?case
    using b by (simp add: poll_noop)
next
  case (Suc n)
  then have pos: "0 < budget" and n: "n = nat (budget - 1)"
    by simp_all
  show ?case
  proof (cases "elems (rx_queue s)")
    case Nil
    then have "frames_processed s budget = 0"
      by (simp add: frames_processed_def)
    then show ?thesis
      using Nil by (simp add: poll_noop isBufferEmpty_def)
  next
    case (Cons rx q)
    let ?s1 = "s\<lparr>free_pool := (free_pool s)\<lparr>elems := elems (free_pool s) @ [buf_no rx]\<rparr>,
                  rx_queue := (rx_queue s)\<lparr>elems := q\<rparr>,
                  owned := remove1 (buf_no rx) (owned s),
                  trace := trace s @ dispatch s rx\<rparr>"
    let ?k1 = "frames_processed ?s1 (budget - 1)"
    let ?r1 = "?s1\<lparr>free_pool := (free_pool ?s1)
              \<lparr>elems := elems (free_pool ?s1) @ map buf_no (take ?k1 (elems (rx_queue ?s1)))\<rparr>,
            rx_queue := (rx_queue ?s1)\<lparr>elems := drop ?k1 (elems (rx_queue ?s1))\<rparr>,
            owned := fold remove1 (map buf_no (take ?k1 (elems (rx_queue ?s1)))) (owned ?s1),
            trace := trace ?s1 @ concat (map (dispatch ?s1) (take ?k1 (elems (rx_queue ?s1))))\<rparr>"
    let ?k = "frames_processed s budget"
    let ?r = "s\<lparr>free_pool := (free_pool s)
              \<lparr>elems := elems (free_pool s) @ map buf_no (take ?k (elems (rx_queue s)))\<rparr>,
            rx_queue := (rx_queue s)\<lparr>elems := drop ?k (elems (rx_queue s))\<rparr>,
            owned := fold remove1 (map buf_no (take ?k (elems (rx_queue s)))) (owned s),
            trace := trace s @ concat (map (dispatch s) (take ?k (elems (rx_queue s))))\<rparr>"
    have k: "?k = Suc ?k1"
      using pos Cons by (simp add: frames_processed_def nat_diff_distrib)
    have d: "dispatch ?s1 = dispatch s"
      by (rule ext) (simp add: dispatch_def)
    from Suc.prems(1) have v: "0 \<le> buf_no rx" "buf_no rx < int (length (dma_bufs s))"
      "buf_no rx < int (N_DMA_BUFS c)"
      by (simp_all add: k Cons)
    from Suc.prems(2) have room: "length (elems (free_pool s)) < capacity (free_pool s)"
      by (simp add: k)
    have step: "pico_eth_poll c s budget = pico_eth_poll c ?s1 (budget - 1)"
      by (rule poll_step[OF pos Cons v room])
    have ih: "pico_eth_poll c ?s1 (budget - 1) = Inr (?r1, budget - 1 - int ?k1)"
      using Suc.prems by (intro Suc.hyps(1)[OF n]) (simp_all add: k Cons)
    have st: "?r1 = ?r"
      by (rule buffers.equality) (simp_all add: k Cons d)
    have bud: "budget - 1 - int ?k1 = budget - int ?k"
      by (simp add: k)
    show ?thesis
      by (simp only: step ih st bud)
  qed
qed

lemma poll_polled:
  "\<forall>rx \<in> set (served s budget).
      0 \<le> buf_no rx \<and> buf_no rx < int (length (dma_bufs s)) \<and> buf_no rx < int (N_DMA_BUFS c) \<Longrightarrow>
   length (elems (free_pool s)) + frames_processed s budget \<le> capacity (free_pool s) \<Longrightarrow>
   pico_eth_poll c s budget = Inr (polled s budget, budget - int (frames_processed s budget))"
  unfolding served_def polled_def by (rule poll_result)

lemma deliveries_dispatch:
  "filter is_stack_recv (concat (map (dispatch s) rxs)) =
   map (\<lambda>rx. pico_stack_recv (vaddr (dma_bufs s ! nat (buf_no rx))) (length_rx rx)) rxs"
  by (induction rxs) (simp_all add: dispatch_def)

lemma pool8_queued_reached:
  "run pool8_config (init_state pool8_config board)
     [Allocate_rx_buf 2048, Allocate_rx_buf 2048, Allocate_rx_buf 2048, Allocate_rx_buf 2048,
      Allocate_rx_buf 2048,
      Rx_complete 1 [0] [60], Rx_complete 1 [1] [61], Rx_complete 1 [2] [62],
      Rx_complete 1 [3] [63], Rx_complete 1 [4] [64]] = Inr pool8_queued"
proof -
  have u: "[0..<8] = [0, 1, 2, 3, 4, 5, 6, 7]"
    by (simp add: upt_rec)
  have i: "init_state pool8_config board =
     \<lparr>dma_bufs = map (sos_dma_malloc board) [0, 1, 2, 3, 4, 5, 6, 7],
      free_pool = \<lparr>capacity = 8, elems = [0, 1, 2, 3, 4, 5, 6, 7]\<rparr>,
      rx_queue = \<lparr>capacity = 6, elems = []\<rparr>,
      n_tx_bufs = 0, owned = [],
      trace = trace (init_state pool8_config board)\<rparr>"
    by (simp add: init_state_def pool8_config_def u)
  show ?thesis
    unfolding pool8_queued_def
    by (subst (1 2) i)
       (simp add: pico_allocate_rx_buf_def alloc_dma_buf_def isBufferEmpty_def bufferRead_def
          int_of_long_def array_read_def emit_def pico_rx_complete_def isBufferFull_def
          bufferWrite_def pool8_config_def board_def)
qed

text \<open>
  C6. A call of \<open>pico_eth_poll\<close> with budget \<open>b\<close> serves the oldest
  \<open>min (max b 0) (queue length)\<close> frames of the completion queue, in order: each is
  delivered once to the stack and its buffer is released. The call returns the budget
  minus the number of frames served. With a budget of zero (or less), or with an empty
  queue, nothing is served and the state and the budget come back unchanged. The call
  returns when the queued handles are those of buffers (from 0 to below \<open>N_DMA_BUFS\<close>)
  and the free list has room for them.
\<close>

theorem poll_within_budget:
  assumes "\<forall>rx \<in> set (served s budget).
      0 \<le> buf_no rx \<and> buf_no rx < int (length (dma_bufs s)) \<and> buf_no rx < int (N_DMA_BUFS c)"
    and "length (elems (free_pool s)) + frames_processed s budget \<le> capacity (free_pool s)"
  shows "pico_eth_poll c s budget = Inr (polled s budget, budget - int (frames_processed s budget)) \<and>
         int (frames_processed s budget) \<le> max 0 budget \<and>
         deliveries (polled s budget) =
           deliveries s @
           map (\<lambda>rx. pico_stack_recv (vaddr (dma_bufs s ! nat (buf_no rx))) (length_rx rx))
             (served s budget) \<and>
         length (deliveries (polled s budget)) = length (deliveries s) + frames_processed s budget \<and>
         (budget \<le> 0 \<or> isBufferEmpty (rx_queue s) \<longrightarrow>
            pico_eth_poll c s budget = Inr (s, budget))"
proof -
  have d: "deliveries (polled s budget) =
           deliveries s @
           map (\<lambda>rx. pico_stack_recv (vaddr (dma_bufs s ! nat (buf_no rx))) (length_rx rx))
             (served s budget)"
    by (simp add: deliveries_def polled_def deliveries_dispatch)
  have l: "length (served s budget) = frames_processed s budget"
    by (simp add: served_def frames_processed_def)
  have b: "int (frames_processed s budget) \<le> max 0 budget"
    by (simp add: frames_processed_def)
  have n: "budget \<le> 0 \<or> isBufferEmpty (rx_queue s) \<longrightarrow> pico_eth_poll c s budget = Inr (s, budget)"
    using poll_noop by blast
  have l': "length (deliveries (polled s budget)) = length (deliveries s) + frames_processed s budget"
    by (simp add: d l)
  from poll_polled[OF assms] b d l' n show ?thesis
    by (intro conjI)
qed

theorem poll_within_budget_witness:
  "run pool8_config (init_state pool8_config board)
     [Allocate_rx_buf 2048, Allocate_rx_buf 2048, Allocate_rx_buf 2048, Allocate_rx_buf 2048,
      Allocate_rx_buf 2048,
      Rx_complete 1 [0] [60], Rx_complete 1 [1] [61], Rx_complete 1 [2] [62],
      Rx_complete 1 [3] [63], Rx_complete 1 [4] [64]] = Inr pool8_queued \<and>
   pico_eth_poll pool8_config pool8_queued 3 = Inr (pool8_polled3, 0) \<and>
   deliveries pool8_polled3 =
     [pico_stack_recv 2048 60, pico_stack_recv 4096 61, pico_stack_recv 6144 62] \<and>
   pico_eth_poll pool8_config pool8_polled3 5 = Inr (pool8_polled5, 3) \<and>
   deliveries pool8_polled5 =
     [pico_stack_recv 2048 60, pico_stack_recv 4096 61, pico_stack_recv 6144 62,
      pico_stack_recv 8192 63, pico_stack_recv 10240 64] \<and>
   pico_eth_poll pool8_config pool8_polled5 0 = Inr (pool8_polled5, 0) \<and>
   pico_eth_poll pool8_config pool8_polled5 4 = Inr (pool8_polled5, 4)"
proof -
  have u: "[0..<8] = [0, 1, 2, 3, 4, 5, 6, 7]"
    by (simp add: upt_rec)
  have bufs: "dma_bufs (init_state pool8_config board) =
     [\<lparr>vaddr = 2048, paddr = 1050624\<rparr>, \<lparr>vaddr = 4096, paddr = 1052672\<rparr>,
      \<lparr>vaddr = 6144, paddr = 1054720\<rparr>, \<lparr>vaddr = 8192, paddr = 1056768\<rparr>,
      \<lparr>vaddr = 10240, paddr = 1058816\<rparr>, \<lparr>vaddr = 12288, paddr = 1060864\<rparr>,
      \<lparr>vaddr = 14336, paddr = 1062912\<rparr>, \<lparr>vaddr = 16384, paddr = 1064960\<rparr>]"
    by (simp add: init_state_def pool8_config_def board_def u)
  have del0: "deliveries (init_state pool8_config board) = []"
    by (simp add: deliveries_def init_state_def)
  have k3: "frames_processed pool8_queued 3 = 3"
    by (simp add: frames_processed_def pool8_queued_def)
  have s3: "served pool8_queued 3 =
     [\<lparr>buf_no = 0, length_rx = 60\<rparr>, \<lparr>buf_no = 1, length_rx = 61\<rparr>, \<lparr>buf_no = 2, length_rx = 62\<rparr>]"
    by (simp add: served_def k3) (simp add: pool8_queued_def)
  have p3: "polled pool8_queued 3 = pool8_polled3"
    unfolding polled_def pool8_polled3_def
    by (rule buffers.equality) (simp_all add: s3 k3 dispatch_def, simp_all add: pool8_queued_def bufs)
  have nN: "N_DMA_BUFS pool8_config = 8"
    by (simp add: pool8_config_def)
  have len: "length (dma_bufs pool8_queued) = 8" "length (dma_bufs pool8_polled3) = 8"
    by (simp_all add: pool8_polled3_def pool8_queued_def bufs)
  have v3: "\<forall>rx \<in> set (served pool8_queued 3).
      0 \<le> buf_no rx \<and> buf_no rx < int (length (dma_bufs pool8_queued)) \<and>
      buf_no rx < int (N_DMA_BUFS pool8_config)"
    by (simp add: s3 len nN)
  have r3: "length (elems (free_pool pool8_queued)) + frames_processed pool8_queued 3
              \<le> capacity (free_pool pool8_queued)"
    by (simp add: k3) (simp add: pool8_queued_def)
  have k5: "frames_processed pool8_polled3 5 = 2"
    by (simp add: frames_processed_def pool8_polled3_def)
  have s5: "served pool8_polled3 5 = [\<lparr>buf_no = 3, length_rx = 63\<rparr>, \<lparr>buf_no = 4, length_rx = 64\<rparr>]"
    by (simp add: served_def k5) (simp add: pool8_polled3_def)
  have p5: "polled pool8_polled3 5 = pool8_polled5"
    unfolding polled_def pool8_polled5_def
    by (rule buffers.equality)
       (simp_all add: s5 k5 dispatch_def, simp_all add: pool8_polled3_def pool8_queued_def bufs)
  have v5: "\<forall>rx \<in> set (served pool8_polled3 5).
      0 \<le> buf_no rx \<and> buf_no rx < int (length (dma_bufs pool8_polled3)) \<and>
      buf_no rx < int (N_DMA_BUFS pool8_config)"
    by (simp add: s5 len nN)
  have r5: "length (elems (free_pool pool8_polled3)) + frames_processed pool8_polled3 5
              \<le> capacity (free_pool pool8_polled3)"
    by (simp add: k5) (simp add: pool8_polled3_def)
  have e: "isBufferEmpty (rx_queue pool8_polled5)"
    by (simp add: pool8_polled5_def isBufferEmpty_def)
  have k0: "frames_processed pool8_polled5 0 = 0" "frames_processed pool8_polled5 4 = 0"
    by (simp_all add: frames_processed_def pool8_polled5_def)
  have v0: "\<forall>rx \<in> set (served pool8_polled5 b).
      0 \<le> buf_no rx \<and> buf_no rx < int (length (dma_bufs pool8_polled5)) \<and>
      buf_no rx < int (N_DMA_BUFS pool8_config)" for b
    by (simp add: served_def pool8_polled5_def)
  have r0: "length (elems (free_pool pool8_polled5)) + frames_processed pool8_polled5 0
              \<le> capacity (free_pool pool8_polled5)"
       "length (elems (free_pool pool8_polled5)) + frames_processed pool8_polled5 4
              \<le> capacity (free_pool pool8_polled5)"
    by (simp_all add: k0) (simp_all add: pool8_polled5_def)
  have dq: "deliveries pool8_queued = []"
    by (simp add: deliveries_def pool8_queued_def) (simp add: init_state_def)
  have a: "pico_eth_poll pool8_config pool8_queued 3 = Inr (pool8_polled3, 0)"
    and da: "deliveries pool8_polled3 =
     [pico_stack_recv 2048 60, pico_stack_recv 4096 61, pico_stack_recv 6144 62]"
    using poll_within_budget[OF v3 r3]
    by (simp_all add: p3 k3 s3 dq del: pico_eth_poll.simps) (simp_all add: pool8_queued_def bufs)
  have b: "pico_eth_poll pool8_config pool8_polled3 5 = Inr (pool8_polled5, 3)"
    and db: "deliveries pool8_polled5 =
     [pico_stack_recv 2048 60, pico_stack_recv 4096 61, pico_stack_recv 6144 62,
      pico_stack_recv 8192 63, pico_stack_recv 10240 64]"
    using poll_within_budget[OF v5 r5]
    by (simp_all add: p5 k5 s5 da del: pico_eth_poll.simps)
       (simp_all add: pool8_polled3_def pool8_queued_def bufs)
  from poll_within_budget[OF v0 r0(1)]
  have "(0::int) \<le> 0 \<or> isBufferEmpty (rx_queue pool8_polled5) \<longrightarrow>
        pico_eth_poll pool8_config pool8_polled5 0 = Inr (pool8_polled5, 0)"
    by blast
  then have c0: "pico_eth_poll pool8_config pool8_polled5 0 = Inr (pool8_polled5, 0)"
    by simp
  from poll_within_budget[OF v0 r0(2)]
  have "(4::int) \<le> 0 \<or> isBufferEmpty (rx_queue pool8_polled5) \<longrightarrow>
        pico_eth_poll pool8_config pool8_polled5 4 = Inr (pool8_polled5, 4)"
    by blast
  with e have c4: "pico_eth_poll pool8_config pool8_polled5 4 = Inr (pool8_polled5, 4)"
    by simp
  from pool8_queued_reached a da b db c0 c4 show ?thesis
    by (intro conjI)
qed

section \<open>The in-flight counter\<close>

lemma free_dma_buf_fields:
  "free_dma_buf c s b = Inr s' \<Longrightarrow>
   n_tx_bufs s' = n_tx_bufs s \<and> trace s' = trace s \<and> rx_queue s' = rx_queue s \<and>
   dma_bufs s' = dma_bufs s"
  by (auto simp add: free_dma_buf_def Let_def split: if_splits)

lemma alloc_dma_buf_fields:
  "alloc_dma_buf s = (s', b) \<Longrightarrow>
   n_tx_bufs s' = n_tx_bufs s \<and> filter is_memcpy (trace s') = filter is_memcpy (trace s) \<and>
   rx_queue s' = rx_queue s \<and> dma_bufs s' = dma_bufs s"
  by (auto simp add: alloc_dma_buf_def Let_def emit_def split: if_splits option.splits)

lemma rx_free_loop_fields:
  "rx_free_loop c s i num_bufs cookies = Inr s' \<Longrightarrow>
   n_tx_bufs s' = n_tx_bufs s \<and> trace s' = trace s \<and> rx_queue s' = rx_queue s"
proof (induction c s i num_bufs cookies rule: rx_free_loop.induct)
  case (1 c s i num_bufs cookies)
  show ?case
  proof (cases "i < num_bufs")
    case False
    with "1.prems" show ?thesis by simp
  next
    case True
    with "1.prems" obtain ck s1 where r: "array_read cookies (int i) = Inr ck"
      and f: "free_dma_buf c s ck = Inr s1"
      and l: "rx_free_loop c s1 (i + 1) num_bufs cookies = Inr s'"
      by (subst (asm) rx_free_loop.simps) (auto split: sum.splits simp del: rx_free_loop.simps)
    from "1.IH"[OF True r f l] free_dma_buf_fields[OF f] show ?thesis
      by simp
  qed
qed

lemma poll_fields:
  "pico_eth_poll c s budget = Inr (s', r) \<Longrightarrow>
   n_tx_bufs s' = n_tx_bufs s \<and> filter is_memcpy (trace s') = filter is_memcpy (trace s)"
proof (induction c s budget rule: pico_eth_poll.induct)
  case (1 c s loop_score)
  show ?case
  proof (cases "0 < loop_score \<and> \<not> isBufferEmpty (rx_queue s)")
    case False
    with "1.prems" show ?thesis
      by (subst (asm) pico_eth_poll.simps)
         (auto simp add: Let_def split: if_splits simp del: pico_eth_poll.simps)
  next
    case True
    then have pos: "0 < loop_score" and ne: "\<not> isBufferEmpty (rx_queue s)"
      by simp_all
    from ne obtain rx q where b: "bufferRead (rx_queue s) = Some (rx, q)"
      by (cases "elems (rx_queue s)") (auto simp add: bufferRead_def isBufferEmpty_def)
    with "1.prems" pos ne obtain d s1 where a: "array_read (dma_bufs s) (buf_no rx) = Inr d"
      and f: "free_dma_buf c
                (emit (s\<lparr>rx_queue := q\<rparr>)
                   [sos_dma_cache_invalidate (vaddr d) (length_rx rx),
                    pico_stack_recv (vaddr d) (length_rx rx)])
                (buf_no rx) = Inr s1"
      and l: "pico_eth_poll c s1 (loop_score - 1) = Inr (s', r)"
      by (subst (asm) pico_eth_poll.simps)
         (auto simp add: Let_def split: sum.splits simp del: pico_eth_poll.simps)
    from "1.IH"[OF pos refl ne b refl a f l] free_dma_buf_fields[OF f] show ?thesis
      by (simp add: emit_def)
  qed
qed

lemma step_counter:
  assumes "step c s a = Inr s'" and "n_tx_bufs s \<le> int (N_TX_BUFS c)"
  shows "n_tx_bufs s' \<le> int (N_TX_BUFS c) \<and>
         n_tx_bufs s' + (if is_tx_complete a then 1 else 0) + int (sends_accepted s) =
           n_tx_bufs s + int (sends_accepted s')"
proof (cases a)
  case Alloc_dma_buf
  with assms alloc_dma_buf_fields[of s "fst (alloc_dma_buf s)" "snd (alloc_dma_buf s)"]
  show ?thesis by (auto simp add: sends_accepted_def)
next
  case (Free_dma_buf b)
  with assms free_dma_buf_fields[of c s b s'] show ?thesis
    by (simp add: sends_accepted_def)
next
  case (Allocate_rx_buf n)
  with assms show ?thesis
    by (auto simp add: pico_allocate_rx_buf_def emit_def sends_accepted_def
        split: if_splits prod.splits sum.splits dest!: alloc_dma_buf_fields)
next
  case (Rx_complete num_bufs cookies lens)
  show ?thesis
  proof (cases "1 < num_bufs")
    case True
    with Rx_complete assms(1)
    have "rx_free_loop c (emit s [ZF_LOGW ''Frame splitting not handled'']) 0 num_bufs cookies = Inr s'"
      by (simp add: pico_rx_complete_def del: rx_free_loop.simps)
    from rx_free_loop_fields[OF this] assms(2) show ?thesis
      using Rx_complete by (simp add: emit_def sends_accepted_def)
  next
    case False
    with Rx_complete assms show ?thesis
      by (auto simp add: pico_rx_complete_def Let_def sends_accepted_def
          split: if_splits sum.splits)
  qed
next
  case (Tx_complete cookie)
  with assms show ?thesis
    by (auto simp add: pico_tx_complete_def sends_accepted_def
        split: sum.splits if_splits dest!: free_dma_buf_fields)
next
  case (Eth_send len)
  with assms show ?thesis
    by (auto simp add: pico_eth_send_def emit_def Let_def sends_accepted_def
        split: if_splits prod.splits sum.splits dest!: alloc_dma_buf_fields)
next
  case (Eth_poll loop_score)
  with assms obtain r where "pico_eth_poll c s loop_score = Inr (s', r)"
    by (auto split: sum.splits simp del: pico_eth_poll.simps)
  from poll_fields[OF this] assms(2) show ?thesis
    using Eth_poll by (simp add: sends_accepted_def)
qed

lemma run_counter:
  "run c s as = Inr s' \<Longrightarrow> n_tx_bufs s \<le> int (N_TX_BUFS c) \<Longrightarrow>
   n_tx_bufs s' \<le> int (N_TX_BUFS c) \<and>
   n_tx_bufs s' + int (tx_completions as) + int (sends_accepted s) =
     n_tx_bufs s + int (sends_accepted s')"
proof (induction as arbitrary: s)
  case Nil
  then show ?case by (simp add: tx_completions_def)
next
  case (Cons a as)
  from Cons.prems(1) obtain s1 where s1: "step c s a = Inr s1" and r: "run c s1 as = Inr s'"
    by (auto split: sum.splits)
  from step_counter[OF s1 Cons.prems(2)]
  have b: "n_tx_bufs s1 \<le> int (N_TX_BUFS c)"
    and e: "n_tx_bufs s1 + (if is_tx_complete a then 1 else 0) + int (sends_accepted s) =
            n_tx_bufs s + int (sends_accepted s1)"
    by simp_all
  from Cons.IH[OF r b] e show ?case
    by (auto simp add: tx_completions_def)
qed

lemma send_result:
  assumes "pico_eth_send c s len = Inr (s', r)"
  shows "n_tx_bufs s' =
           n_tx_bufs s + (if len \<le> int (BUF_SIZE c) \<and> n_tx_bufs s \<noteq> int (N_TX_BUFS c) then 1 else 0) \<and>
         sends_accepted s' =
           sends_accepted s + (if len \<le> int (BUF_SIZE c) \<and> n_tx_bufs s \<noteq> int (N_TX_BUFS c) then 1 else 0) \<and>
         r = (if len \<le> int (BUF_SIZE c) \<and> n_tx_bufs s \<noteq> int (N_TX_BUFS c) then len else 0)"
  using assms
  by (auto simp add: pico_eth_send_def emit_def Let_def sends_accepted_def
      split: if_splits prod.splits sum.splits dest!: alloc_dma_buf_fields)

lemma tx_complete_result:
  "pico_tx_complete c s cookie = Inr s' \<Longrightarrow>
   n_tx_bufs s' = n_tx_bufs s - 1 \<and> sends_accepted s' = sends_accepted s"
  by (auto simp add: pico_tx_complete_def sends_accepted_def
      split: sum.splits if_splits dest!: free_dma_buf_fields)

lemma sos_first_alloc:
  "free_pool (init_state sos_config board) = \<lparr>capacity = 512, elems = 0 # map int [1..<512]\<rparr>"
proof -
  have "[0..<512] = 0 # [Suc 0..<512]"
    using upt_conv_Cons[of 0 512] by simp
  then show ?thesis
    by (simp add: init_state_pool sos_config_def del: upt_rec_numeral)
qed

text \<open>
  C5 as stated: the in-flight counter is never negative. In the source's configuration,
  the driver takes a buffer for reception and then reports a transmit completion with
  its cookie: the counter, which was 0, becomes \<open>-1\<close>.
\<close>

theorem tx_counter_negative_counterexample:
  "run sos_config (init_state sos_config board) [Allocate_rx_buf 2048, Tx_complete 0] =
     Inr ((init_state sos_config board)
            \<lparr>free_pool := \<lparr>capacity = 512, elems = map int [1..<512] @ [0]\<rparr>,
             n_tx_bufs := - 1,
             owned := [],
             trace := trace (init_state sos_config board) @ [sos_dma_cache_invalidate 2048 2048]\<rparr>) \<and>
   n_tx_bufs (init_state sos_config board) = 0"
proof -
  let ?s = "init_state sos_config board"
  have d: "dma_bufs ?s ! 0 = \<lparr>vaddr = 2048, paddr = 1050624\<rparr>" "length (dma_bufs ?s) = 512"
    by (simp_all add: init_state_def sos_config_def board_def)
  have o: "owned ?s = []" "n_tx_bufs ?s = 0"
    by (simp_all add: init_state_def)
  have c: "N_DMA_BUFS sos_config = 512" "BUF_SIZE sos_config = 2048"
    by (simp_all add: sos_config_def)
  have el: "elems (free_pool ?s) = 0 # map int [1..<512]"
    by (simp add: sos_first_alloc del: upt_rec_numeral)
  show ?thesis
    by (simp add: pico_allocate_rx_buf_def alloc_dma_buf_Cons[OF el]
        sos_first_alloc int_of_long_id array_read_def emit_def d o c
        pico_tx_complete_def free_dma_buf_ok INT_MIN_def del: upt_rec_numeral)
qed

text \<open>
  C5, amended. The in-flight counter never exceeds \<open>N_TX_BUFS\<close>. It goes up by one
  exactly when a send is accepted (a send that passes the tests on the length and on the
  counter; such a send returns its length), and down by one on exactly the transmit
  completions, so that after any run from initialisation it is the number of accepted
  sends minus the number of transmit completions. Nothing in the code keeps this
  difference from being negative.
\<close>

theorem tx_counter_accounting:
  assumes "init_buffers c p = Inr s0" and "run c s0 as = Inr s"
  shows "n_tx_bufs s \<le> int (N_TX_BUFS c) \<and>
         n_tx_bufs s = int (sends_accepted s) - int (tx_completions as) \<and>
         (\<forall>len s' r. pico_eth_send c s len = Inr (s', r) \<longrightarrow>
            n_tx_bufs s' =
              n_tx_bufs s + (if len \<le> int (BUF_SIZE c) \<and> n_tx_bufs s \<noteq> int (N_TX_BUFS c) then 1 else 0) \<and>
            sends_accepted s' =
              sends_accepted s + (if len \<le> int (BUF_SIZE c) \<and> n_tx_bufs s \<noteq> int (N_TX_BUFS c) then 1 else 0) \<and>
            r = (if len \<le> int (BUF_SIZE c) \<and> n_tx_bufs s \<noteq> int (N_TX_BUFS c) then len else 0)) \<and>
         (\<forall>cookie s'. pico_tx_complete c s cookie = Inr s' \<longrightarrow>
            n_tx_bufs s' = n_tx_bufs s - 1 \<and> sends_accepted s' = sends_accepted s)"
proof -
  from assms(1) have s0: "s0 = init_state c p"
    by (simp add: init_buffers_Inr)
  then have z: "n_tx_bufs s0 = 0" "sends_accepted s0 = 0"
    by (simp_all add: init_state_def sends_accepted_def filter_map comp_def)
  then have "n_tx_bufs s0 \<le> int (N_TX_BUFS c)"
    by simp
  from run_counter[OF assms(2) this] z
  have a: "n_tx_bufs s \<le> int (N_TX_BUFS c)"
    and b: "n_tx_bufs s = int (sends_accepted s) - int (tx_completions as)"
    by simp_all
  from a b send_result tx_complete_result show ?thesis
    by blast
qed

theorem tx_counter_accounting_witness:
  "init_buffers pool4_config board = Inr pool4_init \<and>
   run pool4_config pool4_init [Eth_send 100, Eth_send 200] = Inr pool4_two_sent \<and>
   n_tx_bufs pool4_two_sent = int (sends_accepted pool4_two_sent) - int (tx_completions [Eth_send 100, Eth_send 200]) \<and>
   n_tx_bufs pool4_two_sent = 2 \<and>
   pico_eth_send pool4_config pool4_two_sent 300 = Inr (pool4_two_sent, 0) \<and>
   pico_tx_complete pool4_config pool4_two_sent 0 = Inr pool4_one_done \<and>
   n_tx_bufs pool4_one_done = 1 \<and>
   pico_eth_send pool4_config pool4_one_done 300 = Inr (pool4_sent_again, 300) \<and>
   n_tx_bufs pool4_sent_again = 2"
proof -
  have h1: "init_buffers pool4_config board = Inr pool4_init"
    by (simp add: init_buffers_eq platform_ok_board init_pool4)
  have h2: "run pool4_config pool4_init [Eth_send 100, Eth_send 200] = Inr pool4_two_sent"
    by (simp add: pico_eth_send_def alloc_dma_buf_def isBufferEmpty_def bufferRead_def
        int_of_long_def array_read_def emit_def INT_MAX_def
        pool4_config_def pool4_init_def pool4_two_sent_def)
  from tx_counter_accounting[OF h1 h2]
  have a: "n_tx_bufs pool4_two_sent =
           int (sends_accepted pool4_two_sent) - int (tx_completions [Eth_send 100, Eth_send 200])"
    by blast
  have n2: "n_tx_bufs pool4_two_sent = 2"
    by (simp add: pool4_two_sent_def)
  have b: "pico_eth_send pool4_config pool4_two_sent 300 = Inr (pool4_two_sent, 0)"
    by (simp add: pico_eth_send_def pool4_config_def pool4_two_sent_def)
  have c: "pico_tx_complete pool4_config pool4_two_sent 0 = Inr pool4_one_done"
    by (simp add: pico_tx_complete_def free_dma_buf_def isBufferFull_def bufferWrite_def INT_MIN_def
        pool4_config_def pool4_one_done_def pool4_two_sent_def)
  have n1: "n_tx_bufs pool4_one_done = 1"
    by (simp add: pool4_one_done_def)
  have d: "pico_eth_send pool4_config pool4_one_done 300 = Inr (pool4_sent_again, 300)"
    by (simp add: pico_eth_send_def alloc_dma_buf_def isBufferEmpty_def bufferRead_def
        int_of_long_def array_read_def emit_def INT_MAX_def
        pool4_config_def pool4_init_def pool4_two_sent_def pool4_one_done_def pool4_sent_again_def)
  have n3: "n_tx_bufs pool4_sent_again = 2"
    by (simp add: pool4_sent_again_def)
  from h1 h2 a n2 b c n1 d n3 show ?thesis
    by (intro conjI)
qed

section \<open>Ownership of the buffers\<close>

lemma pool_inv_fields:
  "pool_inv c s \<Longrightarrow>
   free_pool s' = free_pool s \<and> owned s' = owned s \<and> rx_queue s' = rx_queue s \<Longrightarrow>
   pool_inv c s'"
  by (simp add: pool_inv_def queued_def)

lemma pool_inv_init: "pool_inv c (init_state c p)"
proof -
  have "set (map int [0..<N_DMA_BUFS c]) = {0..<int (N_DMA_BUFS c)}"
    by (auto simp add: image_iff) (metis atLeastLessThan_iff nat_less_iff nat_0_le zero_le)
  then show ?thesis
    by (simp add: pool_inv_def init_state_def queued_def distinct_map)
qed

lemma pool_inv_count:
  assumes "pool_inv c s"
  shows "length (elems (free_pool s)) + length (owned s) = N_DMA_BUFS c"
proof -
  from assms have d: "distinct (elems (free_pool s) @ owned s)"
    and e: "set (elems (free_pool s) @ owned s) = {0..<int (N_DMA_BUFS c)}"
    by (simp_all add: pool_inv_def)
  have "length (elems (free_pool s) @ owned s) = card (set (elems (free_pool s) @ owned s))"
    using d by (rule distinct_card[symmetric])
  also have "\<dots> = N_DMA_BUFS c"
    by (simp only: e) simp
  finally show ?thesis by simp
qed

lemma pool_inv_alloc:
  assumes "pool_inv c s" and "N_DMA_BUFS c \<le> 2 ^ 31" and "alloc_dma_buf s = (s', b)"
  shows "pool_inv c s'"
proof (cases "elems (free_pool s)")
  case Nil
  then have "alloc_dma_buf s = (emit s [ZF_LOGE ''Out of preallocated eth buffers.''], - 1)"
    by (simp add: alloc_dma_buf_empty isBufferEmpty_def)
  with assms(3) have "s' = emit s [ZF_LOGE ''Out of preallocated eth buffers.'']"
    by simp
  with assms(1) show ?thesis
    by (simp add: pool_inv_def queued_def emit_def)
next
  case (Cons x xs)
  from assms(1) Cons have "x \<in> {0..<int (N_DMA_BUFS c)}"
    by (auto simp add: pool_inv_def)
  with assms(2) have "0 \<le> x" "x < 2 ^ 31"
    by auto
  then have "int_of_long x = x"
    by (simp add: int_of_long_id)
  with assms(3) Cons have "s' = s\<lparr>free_pool := (free_pool s)\<lparr>elems := xs\<rparr>, owned := owned s @ [x]\<rparr>"
    by (auto simp add: alloc_dma_buf_Cons)
  with assms(1) Cons show ?thesis
    by (auto simp add: pool_inv_def queued_def)
qed

lemma pool_inv_free:
  assumes "pool_inv c s" and "b \<in> set (owned s)" and "b \<notin> set (queued s)"
    and "free_dma_buf c s b = Inr s'"
  shows "pool_inv c s'"
proof -
  from assms(4) have s': "s' = s\<lparr>free_pool := (free_pool s)\<lparr>elems := elems (free_pool s) @ [b]\<rparr>,
                              owned := remove1 b (owned s)\<rparr>"
    by (auto simp add: free_dma_buf_def bufferWrite_def Let_def split: if_splits)
  from assms(1) have d: "distinct (owned s)"
    by (simp add: pool_inv_def)
  with assms(1,2,3) show ?thesis
    unfolding s' by (auto simp add: pool_inv_def queued_def)
qed

lemma pool_inv_free_loop:
  "rx_free_loop c s i num_bufs cookies = Inr s' \<Longrightarrow> pool_inv c s \<Longrightarrow>
   distinct (drop i (take num_bufs cookies)) \<Longrightarrow>
   set (drop i (take num_bufs cookies)) \<subseteq> set (owned s) - set (queued s) \<Longrightarrow>
   pool_inv c s'"
proof (induction c s i num_bufs cookies rule: rx_free_loop.induct)
  case (1 c s i num_bufs cookies)
  show ?case
  proof (cases "i < num_bufs")
    case False
    with "1.prems" show ?thesis by simp
  next
    case True
    with "1.prems"(1) obtain ck s1 where r: "array_read cookies (int i) = Inr ck"
      and f: "free_dma_buf c s ck = Inr s1"
      and l: "rx_free_loop c s1 (i + 1) num_bufs cookies = Inr s'"
      by (subst (asm) rx_free_loop.simps) (auto split: sum.splits simp del: rx_free_loop.simps)
    from r have il: "i < length cookies" and ck: "ck = cookies ! i"
      by (auto simp add: array_read_def split: if_splits)
    from il True have "i < length (take num_bufs cookies)"
      by simp
    from Cons_nth_drop_Suc[OF this] True ck
    have d: "drop i (take num_bufs cookies) = ck # drop (Suc i) (take num_bufs cookies)"
      by simp
    from "1.prems"(3,4) d have o: "ck \<in> set (owned s)" "ck \<notin> set (queued s)"
      and nd: "ck \<notin> set (drop (Suc i) (take num_bufs cookies))"
      and dr: "distinct (drop (Suc i) (take num_bufs cookies))"
      and sub: "set (drop (Suc i) (take num_bufs cookies)) \<subseteq> set (owned s) - set (queued s)"
      by auto
    from pool_inv_free[OF "1.prems"(2) o f] have inv1: "pool_inv c s1" .
    from f have s1: "owned s1 = remove1 ck (owned s)" "queued s1 = queued s"
      by (auto simp add: free_dma_buf_def Let_def queued_def split: if_splits)
    from "1.prems"(2) have "distinct (owned s)"
      by (simp add: pool_inv_def)
    with sub nd have sub1: "set (drop (i + 1) (take num_bufs cookies)) \<subseteq> set (owned s1) - set (queued s1)"
      by (auto simp add: s1)
    from dr have dr1: "distinct (drop (i + 1) (take num_bufs cookies))"
      by simp
    from "1.IH"[OF True r f l inv1 dr1 sub1] show ?thesis .
  qed
qed

lemma pool_inv_poll:
  "pico_eth_poll c s budget = Inr (s', r) \<Longrightarrow> pool_inv c s \<Longrightarrow> pool_inv c s'"
proof (induction c s budget rule: pico_eth_poll.induct)
  case (1 c s loop_score)
  show ?case
  proof (cases "0 < loop_score \<and> \<not> isBufferEmpty (rx_queue s)")
    case False
    with "1.prems" show ?thesis
      by (subst (asm) pico_eth_poll.simps)
         (auto simp add: Let_def split: if_splits simp del: pico_eth_poll.simps)
  next
    case True
    then have pos: "0 < loop_score" and ne: "\<not> isBufferEmpty (rx_queue s)"
      by simp_all
    from ne obtain rx q where el: "elems (rx_queue s) = rx # q"
      by (cases "elems (rx_queue s)") (auto simp add: isBufferEmpty_def)
    then have b: "bufferRead (rx_queue s) = Some (rx, (rx_queue s)\<lparr>elems := q\<rparr>)"
      by (simp add: bufferRead_def)
    let ?s0 = "\<lambda>d. emit (s\<lparr>rx_queue := (rx_queue s)\<lparr>elems := q\<rparr>\<rparr>)
                   [sos_dma_cache_invalidate (vaddr d) (length_rx rx),
                    pico_stack_recv (vaddr d) (length_rx rx)]"
    from "1.prems"(1) pos ne b obtain d s1 where a: "array_read (dma_bufs s) (buf_no rx) = Inr d"
      and f: "free_dma_buf c (?s0 d) (buf_no rx) = Inr s1"
      and l: "pico_eth_poll c s1 (loop_score - 1) = Inr (s', r)"
      by (subst (asm) pico_eth_poll.simps)
         (auto simp add: Let_def split: sum.splits simp del: pico_eth_poll.simps)
    from "1.prems"(2) el have inv0: "pool_inv c (?s0 d)"
      and o: "buf_no rx \<in> set (owned (?s0 d))" "buf_no rx \<notin> set (queued (?s0 d))"
      by (auto simp add: pool_inv_def queued_def emit_def)
    from pool_inv_free[OF inv0 o f] have "pool_inv c s1" .
    from "1.IH"[OF pos refl ne b refl a f l this] show ?thesis .
  qed
qed

lemma pool_inv_step:
  assumes "pool_inv c s" and "N_DMA_BUFS c \<le> 2 ^ 31" and "respects_ownership s a"
    and "step c s a = Inr s'"
  shows "pool_inv c s'"
proof (cases a)
  case Alloc_dma_buf
  with assms(4) have "alloc_dma_buf s = (s', snd (alloc_dma_buf s))"
    by (cases "alloc_dma_buf s") simp
  from pool_inv_alloc[OF assms(1,2) this] show ?thesis .
next
  case (Free_dma_buf b)
  with assms(3,4) show ?thesis
    by (intro pool_inv_free[OF assms(1), of b]) (simp_all add: respects_ownership_def)
next
  case (Allocate_rx_buf n)
  show ?thesis
  proof (cases "BUF_SIZE c < n")
    case True
    with Allocate_rx_buf assms(4)
    have "s' = emit s [ZF_LOGE ''Requested buf size %zu too large, max %zu'']"
      by (auto simp add: pico_allocate_rx_buf_def)
    with assms(1) show ?thesis
      by (simp add: pool_inv_def queued_def emit_def)
  next
    case False
    obtain s1 b where al: "alloc_dma_buf s = (s1, b)"
      by (cases "alloc_dma_buf s")
    from pool_inv_alloc[OF assms(1,2) al] have i1: "pool_inv c s1" .
    from Allocate_rx_buf assms(4) False al
    have "free_pool s' = free_pool s1 \<and> owned s' = owned s1 \<and> rx_queue s' = rx_queue s1"
      by (auto simp add: pico_allocate_rx_buf_def emit_def split: if_splits sum.splits)
    with i1 show ?thesis
      by (rule pool_inv_fields)
  qed
next
  case (Rx_complete num_bufs cookies lens)
  show ?thesis
  proof (cases "1 < num_bufs")
    case True
    let ?s0 = "emit s [ZF_LOGW ''Frame splitting not handled'']"
    from True Rx_complete assms(4)
    have l: "rx_free_loop c ?s0 0 num_bufs cookies = Inr s'"
      by (simp add: pico_rx_complete_def del: rx_free_loop.simps)
    from assms(1) have i0: "pool_inv c ?s0"
      by (simp add: pool_inv_def queued_def emit_def)
    from assms(3) True Rx_complete
    have d: "distinct (drop 0 (take num_bufs cookies))"
      and sub: "set (drop 0 (take num_bufs cookies)) \<subseteq> set (owned ?s0) - set (queued ?s0)"
      by (auto simp add: respects_ownership_def emit_def queued_def)
    from pool_inv_free_loop[OF l i0 d sub] show ?thesis .
  next
    case False
    with Rx_complete assms(4) obtain ck cks ln lns where ck: "cookies = ck # cks" "lens = ln # lns"
      and nf: "\<not> isBufferFull (rx_queue s)"
      and s': "s' = s\<lparr>rx_queue := bufferWrite (rx_queue s) \<lparr>buf_no = ck, length_rx = ln\<rparr>\<rparr>"
      by (cases cookies; cases lens)
         (auto simp add: pico_rx_complete_def Let_def array_read_def split: if_splits)
    from assms(3) False Rx_complete ck have o: "ck \<in> set (owned s)" "ck \<notin> set (queued s)"
      by (simp_all add: respects_ownership_def)
    from nf have q: "queued s' = queued s @ [ck]"
      by (simp add: s' queued_def bufferWrite_def)
    from assms(1) o show ?thesis
      unfolding pool_inv_def q by (simp add: s')
  qed
next
  case (Tx_complete cookie)
  with assms(4) obtain s1 where f: "free_dma_buf c s cookie = Inr s1"
    and e: "free_pool s' = free_pool s1 \<and> owned s' = owned s1 \<and> rx_queue s' = rx_queue s1"
    by (auto simp add: pico_tx_complete_def split: sum.splits if_splits)
  from assms(3) Tx_complete have o: "cookie \<in> set (owned s)" "cookie \<notin> set (queued s)"
    by (simp_all add: respects_ownership_def)
  from pool_inv_free[OF assms(1) o f] e show ?thesis
    by (rule pool_inv_fields)
next
  case (Eth_send len)
  show ?thesis
  proof (cases "int (BUF_SIZE c) < len \<or> n_tx_bufs s = int (N_TX_BUFS c)")
    case True
    with Eth_send assms(4)
    have "free_pool s' = free_pool s \<and> owned s' = owned s \<and> rx_queue s' = rx_queue s"
      by (auto simp add: pico_eth_send_def emit_def split: if_splits)
    with assms(1) show ?thesis
      by (rule pool_inv_fields)
  next
    case False
    obtain s1 b where al: "alloc_dma_buf s = (s1, b)"
      by (cases "alloc_dma_buf s")
    from pool_inv_alloc[OF assms(1,2) al] have i1: "pool_inv c s1" .
    from Eth_send assms(4) False al
    have "free_pool s' = free_pool s1 \<and> owned s' = owned s1 \<and> rx_queue s' = rx_queue s1"
      by (auto simp add: pico_eth_send_def emit_def Let_def split: if_splits sum.splits)
    with i1 show ?thesis
      by (rule pool_inv_fields)
  qed
next
  case (Eth_poll loop_score)
  with assms(4) obtain r where "pico_eth_poll c s loop_score = Inr (s', r)"
    by (auto split: sum.splits simp del: pico_eth_poll.simps)
  from pool_inv_poll[OF this assms(1)] show ?thesis .
qed

lemma pool_inv_run:
  "pool_inv c s \<Longrightarrow> N_DMA_BUFS c \<le> 2 ^ 31 \<Longrightarrow> disciplined c s as \<Longrightarrow> run c s as = Inr s' \<Longrightarrow>
   pool_inv c s'"
proof (induction as arbitrary: s)
  case Nil
  then show ?case by simp
next
  case (Cons a as)
  from Cons.prems(4) obtain s1 where s1: "step c s a = Inr s1" and r: "run c s1 as = Inr s'"
    by (auto split: sum.splits)
  from Cons.prems(3) s1 have ro: "respects_ownership s a" and d: "disciplined c s1 as"
    by simp_all
  from pool_inv_step[OF Cons.prems(1,2) ro s1] have "pool_inv c s1" .
  from Cons.IH[OF this Cons.prems(2) d r] show ?case .
qed

text \<open>
  C1 as stated: in every state reached by any sequence of operations, the buffers
  outside the pool and the buffers on the free list add up to \<open>N_DMA_BUFS\<close>, and every
  buffer is in one ownership state. In the source's configuration, after two sends
  (buffers 0 and 1) and two transmit completions with cookie 0, the free list has its
  512 entries, two of them 0, while buffer 1 is still outside the pool. And after the
  driver has taken buffer 0 for reception, has completed a frame in it and has then
  reported a transmit completion with cookie 0, buffer 0 is on the free list, which
  holds all 512 buffers, and in the completion queue.
\<close>

theorem ownership_counterexample:
  "run sos_config (init_state sos_config board)
     [Eth_send 100, Eth_send 100, Tx_complete 0, Tx_complete 0] = Inr sos_double_completion \<and>
   length (elems (free_pool sos_double_completion)) + length (owned sos_double_completion) = 513 \<and>
   N_DMA_BUFS sos_config = 512 \<and>
   \<not> distinct (elems (free_pool sos_double_completion)) \<and>
   run sos_config (init_state sos_config board)
     [Allocate_rx_buf 2048, Rx_complete 1 [0] [60], Tx_complete 0] = Inr sos_free_and_queued \<and>
   length (elems (free_pool sos_free_and_queued)) = 512 \<and>
   0 \<in> set (elems (free_pool sos_free_and_queued)) \<and>
   0 \<in> set (queued sos_free_and_queued)"
proof -
  let ?s = "init_state sos_config board"
  have "[0..<512] = 0 # Suc 0 # [Suc (Suc 0)..<512]"
    using upt_conv_Cons[of 0 512] upt_conv_Cons[of "Suc 0" 512] by simp
  then have u: "map int [0..<512] = 0 # 1 # map int [2..<512]"
    by (simp add: numeral_2_eq_2 del: upt_rec_numeral)
  have p: "free_pool ?s = \<lparr>capacity = 512, elems = 0 # 1 # map int [2..<512]\<rparr>"
    by (simp add: init_state_pool sos_config_def u del: upt_rec_numeral)
  have d: "dma_bufs ?s ! 0 = \<lparr>vaddr = 2048, paddr = 1050624\<rparr>"
    "dma_bufs ?s ! Suc 0 = \<lparr>vaddr = 4096, paddr = 1052672\<rparr>" "length (dma_bufs ?s) = 512"
    by (simp_all add: init_state_def sos_config_def board_def)
  have o: "owned ?s = []" "n_tx_bufs ?s = 0" "rx_queue ?s = \<lparr>capacity = 256, elems = []\<rparr>"
    by (simp_all add: init_state_def sos_config_def)
  have c: "N_DMA_BUFS sos_config = 512" "BUF_SIZE sos_config = 2048" "N_TX_BUFS sos_config = 128"
    by (simp_all add: sos_config_def)
  have a: "run sos_config ?s [Eth_send 100, Eth_send 100, Tx_complete 0, Tx_complete 0] =
           Inr sos_double_completion"
    unfolding sos_double_completion_def
    by (simp add: pico_eth_send_def alloc_dma_buf_Cons p int_of_long_id array_read_def emit_def
        d o c pico_tx_complete_def free_dma_buf_ok INT_MIN_def INT_MAX_def del: upt_rec_numeral)
  have el: "elems (free_pool ?s) = 0 # map int [1..<512]"
    by (simp add: sos_first_alloc del: upt_rec_numeral)
  have b: "run sos_config ?s [Allocate_rx_buf 2048, Rx_complete 1 [0] [60], Tx_complete 0] =
           Inr sos_free_and_queued"
    unfolding sos_free_and_queued_def
    by (simp add: pico_allocate_rx_buf_def alloc_dma_buf_Cons[OF el] sos_first_alloc
        int_of_long_id array_read_def emit_def d o c rx_complete_single
        pico_tx_complete_def free_dma_buf_ok INT_MIN_def del: upt_rec_numeral)
  show ?thesis
    by (simp only: a b c simp_thms)
       (simp add: sos_double_completion_def sos_free_and_queued_def queued_def del: upt_rec_numeral)
qed

text \<open>
  C1, amended. Take any run from initialisation in which the callers respect ownership:
  every handle handed back (to \<open>free_dma_buf\<close>, to a transmit completion or to a receive
  completion) is the handle of a buffer that is outside the pool and not waiting in the
  completion queue, and it is handed back once. In every state of such a run the free
  list and the handles outside the pool hold each index from 0 to \<open>N_DMA_BUFS - 1\<close>
  exactly once, so that the buffers outside the pool and the free buffers add up to
  \<open>N_DMA_BUFS\<close>; the buffers in the completion queue are among those outside the pool.
\<close>

theorem buffers_conserved:
  assumes "N_DMA_BUFS c \<le> 2 ^ 31" and "init_buffers c p = Inr s0"
    and "disciplined c s0 as" and "run c s0 as = Inr s"
  shows "length (elems (free_pool s)) + length (owned s) = N_DMA_BUFS c \<and>
         distinct (elems (free_pool s) @ owned s) \<and>
         set (elems (free_pool s) @ owned s) = {0..<int (N_DMA_BUFS c)} \<and>
         distinct (queued s) \<and> set (queued s) \<subseteq> set (owned s)"
proof -
  from assms(2) have "s0 = init_state c p"
    by (simp add: init_buffers_Inr)
  then have "pool_inv c s0"
    by (simp add: pool_inv_init)
  from pool_inv_run[OF this assms(1,3,4)] have i: "pool_inv c s" .
  from pool_inv_count[OF i] i show ?thesis
    by (simp add: pool_inv_def)
qed

theorem buffers_conserved_witness:
  "N_DMA_BUFS pool4_config \<le> 2 ^ 31 \<and>
   init_buffers pool4_config board = Inr pool4_init \<and>
   disciplined pool4_config pool4_init pool4_traffic \<and>
   run pool4_config pool4_init pool4_traffic = Inr pool4_after_traffic \<and>
   length (elems (free_pool pool4_after_traffic)) + length (owned pool4_after_traffic) =
     N_DMA_BUFS pool4_config \<and>
   elems (free_pool pool4_after_traffic) @ owned pool4_after_traffic = [3, 0, 1, 2]"
proof -
  have h1: "N_DMA_BUFS pool4_config \<le> 2 ^ 31"
    by (simp add: pool4_config_def)
  have h2: "init_buffers pool4_config board = Inr pool4_init"
    by (simp add: init_buffers_eq platform_ok_board init_pool4)
  have h3: "disciplined pool4_config pool4_init pool4_traffic"
    by (simp add: pool4_traffic_def respects_ownership_def queued_def
        pico_allocate_rx_buf_def pico_eth_send_def pico_rx_complete_def pico_tx_complete_def
        alloc_dma_buf_def free_dma_buf_def isBufferEmpty_def isBufferFull_def bufferRead_def
        bufferWrite_def int_of_long_def array_read_def emit_def INT_MAX_def INT_MIN_def
        pool4_config_def pool4_init_def)
  have h4: "run pool4_config pool4_init pool4_traffic = Inr pool4_after_traffic"
    by (simp add: pool4_traffic_def pool4_after_traffic_def
        pico_allocate_rx_buf_def pico_eth_send_def pico_rx_complete_def pico_tx_complete_def
        alloc_dma_buf_def free_dma_buf_def isBufferEmpty_def isBufferFull_def bufferRead_def
        bufferWrite_def int_of_long_def array_read_def emit_def INT_MAX_def INT_MIN_def
        pool4_config_def pool4_init_def)
  from buffers_conserved[OF h1 h2 h3 h4]
  have c: "length (elems (free_pool pool4_after_traffic)) + length (owned pool4_after_traffic) =
     N_DMA_BUFS pool4_config"
    by blast
  have e: "elems (free_pool pool4_after_traffic) @ owned pool4_after_traffic = [3, 0, 1, 2]"
    by (simp add: pool4_after_traffic_def)
  from h1 h2 h3 h4 c e show ?thesis
    by (intro conjI)
qed

section \<open>The polled poll\<close>

lemma frames_received_le: "frames_received ethif_recv k n \<le> n"
  by (induction n arbitrary: k) simp_all

lemma poll_polled_budget:
  "pico_eth_poll_polled ethif_recv k budget =
     budget - int (frames_received ethif_recv k (nat budget))"
proof (induction "nat budget" arbitrary: k budget)
  case 0
  then show ?case
    by (subst pico_eth_poll_polled.simps) simp
next
  case (Suc n)
  then have pos: "0 < budget" and n: "n = nat (budget - 1)" and b: "nat budget = Suc (nat (budget - 1))"
    by simp_all
  show ?case
    by (subst pico_eth_poll_polled.simps, subst b)
       (simp add: Suc.hyps(1)[OF n] pos split: prod.splits del: pico_eth_poll_polled.simps)
qed

end
